theory Spec2Isabelle
  imports Main "HOL-Library.Sublist"
begin

section \<open>Strings and the pieces of Node's \<open>path\<close> module the plugin calls\<close>

text \<open>
  The plugin (\<open>src/index.ts\<close>) is a closure over two lists of strings and a map. It calls
  \<open>path.basename\<close>, \<open>path.dirname\<close>, \<open>path.join\<close>, \<open>path.posix.join\<close> and \<open>path.resolve\<close>
  of Node. These are modelled here in their POSIX flavour (the separator is \<open>/\<close>), following
  Node's \<open>lib/path.js\<close>. A JavaScript string is modelled as a \<open>string\<close> (a list of \<open>char\<close>).
\<close>

text \<open>\<open>String.prototype.split\<close> on a one-character separator: never the empty list.\<close>

fun split_on :: "char \<Rightarrow> string \<Rightarrow> string list" where
  "split_on d [] = [[]]"
| "split_on d (c # cs) =
     (if c = d then [] # split_on d cs
      else (case split_on d cs of [] \<Rightarrow> [[c]] | x # xs \<Rightarrow> (c # x) # xs))"

text \<open>\<open>Array.prototype.join('/')\<close>.\<close>

fun join_slash :: "string list \<Rightarrow> string" where
  "join_slash [] = []"
| "join_slash [x] = x"
| "join_slash (x # y # ys) = x @ ''/'' @ join_slash (y # ys)"

text \<open>
  \<open>path.basename(p)\<close>: Node scans \<open>p\<close> from its end, skips the slashes that end the string,
  marks the end of the component at the first other character and stops at the next slash.
\<close>

definition basename :: "string \<Rightarrow> string" where
  "basename p =
     rev (takeWhile (\<lambda>c. c \<noteq> CHR ''/'') (dropWhile (\<lambda>c. c = CHR ''/'') (rev p)))"

text \<open>
  \<open>path.dirname(p)\<close>: the same scan over the indices \<open>length p - 1\<close> down to \<open>1\<close>; the
  slash it stops at is the end of the result. No such slash gives \<open>/\<close> for a rooted path and
  \<open>.\<close> otherwise; a slash at index \<open>1\<close> of a rooted path gives \<open>//\<close>.
\<close>

definition dirname :: "string \<Rightarrow> string" where
  "dirname p =
     (if p = [] then ''.''
      else
        let hasRoot = (hd p = CHR ''/'');
            r = dropWhile (\<lambda>c. c \<noteq> CHR ''/'') (dropWhile (\<lambda>c. c = CHR ''/'') (rev (tl p)));
            e = length r
        in if r = [] then (if hasRoot then ''/'' else ''.'')
           else if hasRoot \<and> e = 1 then ''//''
           else take e p)"

text \<open>
  \<open>normalizeString(path, allowAboveRoot)\<close>: Node walks the segments between slashes and
  keeps the result so far in \<open>res\<close>. An empty segment and \<open>.\<close> are dropped; \<open>..\<close> removes the
  last segment of \<open>res\<close> unless \<open>res\<close> is empty or ends in \<open>..\<close>, where it is appended when
  \<open>allowAboveRoot\<close> holds and dropped otherwise; any other segment is appended.
  Here \<open>res\<close> is the list of its segments.
\<close>

definition norm_step :: "bool \<Rightarrow> string list \<Rightarrow> string \<Rightarrow> string list" where
  "norm_step allowAboveRoot res seg =
     (if seg = [] \<or> seg = ''.'' then res
      else if seg = ''..'' then
        (if res \<noteq> [] \<and> last res \<noteq> ''..'' then butlast res
         else if allowAboveRoot then res @ [''..'']
         else res)
      else res @ [seg])"

definition normalizeString :: "string \<Rightarrow> bool \<Rightarrow> string" where
  "normalizeString p allowAboveRoot =
     join_slash (foldl (norm_step allowAboveRoot) [] (split_on (CHR ''/'') p))"

text \<open>\<open>path.posix.normalize\<close>.\<close>

definition normalize :: "string \<Rightarrow> string" where
  "normalize p =
     (if p = [] then ''.''
      else
        let isAbsolute = (hd p = CHR ''/'');
            trailingSeparator = (last p = CHR ''/'');
            q = normalizeString p (\<not> isAbsolute)
        in if q = [] then (if isAbsolute then ''/'' else if trailingSeparator then ''./'' else ''.'')
           else (if isAbsolute then ''/'' else []) @ q @ (if trailingSeparator then ''/'' else []))"

text \<open>
  \<open>path.join(...args)\<close> (and \<open>path.posix.join\<close>): the non-empty arguments joined by a
  slash, then normalised; \<open>.\<close> when there is none.
\<close>

definition path_join :: "string list \<Rightarrow> string" where
  "path_join args =
     (case filter (\<lambda>a. a \<noteq> []) args of
        [] \<Rightarrow> ''.''
      | xs \<Rightarrow> normalize (join_slash xs))"

text \<open>
  \<open>path.resolve(p)\<close> against the working directory \<open>cwd\<close> (an absolute path): the absolute,
  normalised path with no slash at its end.
\<close>

definition resolve :: "string \<Rightarrow> string \<Rightarrow> string" where
  "resolve cwd p =
     ''/'' @ normalizeString (if p \<noteq> [] \<and> hd p = CHR ''/'' then p else cwd @ ''/'' @ p) False"

section \<open>The plugin's constants and its derived file name\<close>

definition prefix_marker :: string where
  "prefix_marker = ''@vite-plugin-wasm-pack@''"

definition pkg :: string where
  "pkg = ''pkg''"

text \<open>\<open>s.replace(/\-/g, '_')\<close>: every hyphen becomes an underscore, left to right.\<close>

primrec replace_hyphens :: "string \<Rightarrow> string" where
  "replace_hyphens [] = []"
| "replace_hyphens (c # cs) = (if c = CHR ''-'' then CHR ''_'' else c) # replace_hyphens cs"

text \<open>\<open>wasmFilename\<close> (lines 42-44).\<close>

definition wasmFilename :: "string \<Rightarrow> string" where
  "wasmFilename cratePath = replace_hyphens (basename cratePath) @ ''_bg.wasm''"

section \<open>The plugin's arguments and the resolution mapping\<close>

text \<open>The arguments have type \<open>string[] | string\<close>; the second one may be absent.\<close>

datatype crates_arg = One string | Many "string list"

text \<open>\<open>cratePaths\<close> (line 35) and \<open>modulePaths\<close> (lines 36-40); the empty string is falsy.\<close>

definition cratePaths :: "crates_arg \<Rightarrow> string list" where
  "cratePaths crates = (case crates of One s \<Rightarrow> [s] | Many ss \<Rightarrow> ss)"

definition modulePaths :: "crates_arg option \<Rightarrow> string list" where
  "modulePaths moduleCrates =
     (case moduleCrates of
        None \<Rightarrow> []
      | Some (One s) \<Rightarrow> (if s = [] then [] else [s])
      | Some (Many ss) \<Rightarrow> ss)"

record CrateType =
  path :: string
  isNodeModule :: bool

text \<open>
  A JavaScript \<open>Map\<close> keeps its entries in insertion order; \<open>set\<close> on a key it has
  replaces the value where the entry stands, and \<open>get\<close> returns the value or \<open>undefined\<close>.
\<close>

fun map_set :: "'k \<Rightarrow> 'v \<Rightarrow> ('k \<times> 'v) list \<Rightarrow> ('k \<times> 'v) list" where
  "map_set k v [] = [(k, v)]"
| "map_set k v ((k', v') # m) = (if k' = k then (k, v) # m else (k', v') # map_set k v m)"

definition map_get :: "('k \<times> 'v) list \<Rightarrow> 'k \<Rightarrow> 'v option" where
  "map_get m k = map_of m k"

type_synonym wasm_map = "(string \<times> CrateType) list"

text \<open>
  What the plugin can throw. \<open>require.resolve\<close> throws for a package it cannot find,
  \<open>this.error\<close> of the bundler throws the message it is given, and the synchronous
  file reads throw for a missing file.
\<close>

datatype error = ModuleNotFound string | PluginError string | ENOENT string

text \<open>
  \<open>require.resolve\<close> is the host's: a parameter \<open>rr\<close>, \<open>None\<close> where it throws.
  The first loop (lines 49-55) adds the local crates, the second (lines 57-64) the
  installed ones.
\<close>

definition add_local :: "wasm_map \<Rightarrow> string \<Rightarrow> wasm_map" where
  "add_local m cratePath =
     (let wasmFile = wasmFilename cratePath
      in map_set wasmFile \<lparr>path = path_join [cratePath, pkg, wasmFile], isNodeModule = False\<rparr> m)"

fun add_modules :: "(string \<Rightarrow> string option) \<Rightarrow> string list \<Rightarrow> wasm_map \<Rightarrow> error + wasm_map" where
  "add_modules rr [] m = Inr m"
| "add_modules rr (cratePath # rest) m =
     (let wasmFile = wasmFilename cratePath
      in case rr cratePath of
           None \<Rightarrow> Inl (ModuleNotFound cratePath)
         | Some entry \<Rightarrow>
             add_modules rr rest
               (map_set wasmFile
                  \<lparr>path = path_join [dirname entry, wasmFile], isNodeModule = True\<rparr> m))"

definition wasmMap ::
  "(string \<Rightarrow> string option) \<Rightarrow> string list \<Rightarrow> string list \<Rightarrow> error + wasm_map" where
  "wasmMap rr crates mods = add_modules rr mods (foldl add_local [] crates)"

section \<open>The hook \<open>resolveId\<close> (lines 74-79)\<close>

fun resolveId :: "string list \<Rightarrow> string \<Rightarrow> string option" where
  "resolveId [] ident = None"
| "resolveId (cratePath # rest) ident =
     (if basename cratePath = ident then Some (prefix_marker @ ident) else resolveId rest ident)"

section \<open>The file system\<close>

text \<open>
  The files and directories the plugin reads and writes, keyed by absolute path, the
  working directory, and what \<open>console.error\<close> has printed. Every file operation resolves
  its argument against the working directory first.
\<close>

record world =
  cwd :: string
  files :: "string \<Rightarrow> string option"
  dirs :: "string \<Rightarrow> bool"
  console :: "string list"

fun strip_prefix :: "string \<Rightarrow> string \<Rightarrow> string option" where
  "strip_prefix [] s = Some s"
| "strip_prefix (p # ps) [] = None"
| "strip_prefix (p # ps) (c # cs) = (if p = c then strip_prefix ps cs else None)"

definition existsSync :: "world \<Rightarrow> string \<Rightarrow> bool" where
  "existsSync w p = (let a = resolve (cwd w) p in dirs w a \<or> files w a \<noteq> None)"

definition readFileSync :: "world \<Rightarrow> string \<Rightarrow> error + string" where
  "readFileSync w p =
     (case files w (resolve (cwd w) p) of None \<Rightarrow> Inl (ENOENT p) | Some c \<Rightarrow> Inr c)"

definition writeFileSync :: "world \<Rightarrow> string \<Rightarrow> string \<Rightarrow> world" where
  "writeFileSync w p c = w\<lparr>files := (files w)(resolve (cwd w) p := Some c)\<rparr>"

text \<open>
  \<open>fs.copy(src, dest)\<close> of fs-extra: it fails when \<open>src\<close> does not exist, when \<open>src\<close> and
  \<open>dest\<close> are the same and when \<open>dest\<close> lies inside \<open>src\<close>. Otherwise a file is copied
  to \<open>dest\<close>, and a directory is copied with everything below it, over what \<open>dest\<close> has;
  the directories above \<open>dest\<close> are created.
\<close>

definition copy :: "world \<Rightarrow> string \<Rightarrow> string \<Rightarrow> world option" where
  "copy w src dest =
     (let s = resolve (cwd w) src; d = resolve (cwd w) dest
      in if \<not> existsSync w src then None
         else if s = d \<or> strip_prefix (s @ ''/'') d \<noteq> None then None
         else if files w s \<noteq> None then
           Some (w\<lparr>files := (files w)(d := files w s),
                   dirs := (\<lambda>x. dirs w x \<or> strip_prefix (x @ ''/'') d \<noteq> None)\<rparr>)
         else
           Some (w\<lparr>files := (\<lambda>x. case strip_prefix (d @ ''/'') x of
                                    None \<Rightarrow> files w x
                                  | Some rel \<Rightarrow>
                                      (case files w (s @ ''/'' @ rel) of
                                         None \<Rightarrow> files w x
                                       | Some c \<Rightarrow> Some c)),
                   dirs := (\<lambda>x. dirs w x \<or> x = d \<or> strip_prefix (x @ ''/'') d \<noteq> None
                                 \<or> (case strip_prefix (d @ ''/'') x of
                                       None \<Rightarrow> False
                                     | Some rel \<Rightarrow> dirs w (s @ ''/'' @ rel)))\<rparr>))"

section \<open>The rewrite of the loader script (lines 140-148)\<close>

text \<open>
  The pattern is \<open>/input = new URL\('(.+)'.+;/g\<close>. A dot matches every character but a
  line terminator. The text \<open>input = new URL('\<close> is matched literally; the group \<open>(.+)\<close>
  is greedy and so is the second \<open>.+\<close>: each takes the longest run first and gives back one
  character at a time until the rest of the pattern matches. A \<open>char\<close> is a byte, so the
  line terminators here are the line feed and the carriage return; U+2028 and U+2029 lie
  outside the texts modelled.
\<close>

definition line_terminator :: "char \<Rightarrow> bool" where
  "line_terminator c \<longleftrightarrow> c = CHR 0x0A \<or> c = CHR 0x0D"

text \<open>The longest run of dots at the start of \<open>s\<close>: up to its first line terminator.\<close>

definition first_line :: "string \<Rightarrow> string" where
  "first_line s = takeWhile (\<lambda>c. \<not> line_terminator c) s"

definition dot_run :: "string \<Rightarrow> nat" where
  "dot_run s = length (first_line s)"

definition url_literal :: string where
  "url_literal = ''input = new URL('' @ [CHR 0x27]"

text \<open>\<open>.+;\<close> with the dots taking \<open>j\<close> characters, then fewer; the result is what follows the semicolon.\<close>

fun dots_semicolon :: "nat \<Rightarrow> string \<Rightarrow> string option" where
  "dots_semicolon 0 s = None"
| "dots_semicolon (Suc j) s =
     (if Suc j < length s \<and> s ! Suc j = CHR '';'' then Some (drop (Suc (Suc j)) s)
      else dots_semicolon j s)"

text \<open>\<open>(.+)'.+;\<close> with the group taking \<open>k\<close> characters, then fewer; the result is the group and what follows the match.\<close>

fun group_quote :: "nat \<Rightarrow> string \<Rightarrow> (string \<times> string) option" where
  "group_quote 0 s = None"
| "group_quote (Suc k) s =
     (if Suc k < length s \<and> s ! Suc k = CHR 0x27 then
        (let t = drop (Suc (Suc k)) s
         in case dots_semicolon (dot_run t) t of
              Some rest \<Rightarrow> Some (take (Suc k) s, rest)
            | None \<Rightarrow> group_quote k s)
      else group_quote k s)"

text \<open>A match of the whole pattern at the start of \<open>s\<close>.\<close>

definition regex_exec :: "string \<Rightarrow> (string \<times> string) option" where
  "regex_exec s =
     (if prefix url_literal s then
        (let t = drop (length url_literal) s in group_quote (dot_run t) t)
      else None)"

text \<open>The replacement for a match whose group is \<open>group1\<close> (lines 143-147).\<close>

definition replacement :: "string \<Rightarrow> string \<Rightarrow> string \<Rightarrow> string" where
  "replacement config_base config_assetsDir group1 =
     ''input = '' @ [CHR 0x22] @ path_join [config_base, config_assetsDir, group1] @ [CHR 0x22]"

lemma dots_semicolon_shorter: "dots_semicolon j s = Some rest \<Longrightarrow> length rest < length s"
  by (induction j) (auto split: if_splits)

lemma group_quote_shorter: "group_quote k s = Some (g, rest) \<Longrightarrow> length rest < length s"
proof (induction k)
  case 0
  then show ?case by simp
next
  case (Suc k)
  then show ?case
    by (auto simp: Let_def split: if_splits option.splits dest!: dots_semicolon_shorter)
qed

lemma regex_exec_shorter: "regex_exec s = Some (g, rest) \<Longrightarrow> length rest < length s"
  by (auto simp: regex_exec_def Let_def split: if_splits dest!: group_quote_shorter)

text \<open>
  \<open>code.replace(regex, f)\<close> with the flag \<open>g\<close>: the leftmost match is replaced and the
  search goes on after it; a character where no match starts is kept.
\<close>

function replace_URL :: "string \<Rightarrow> string \<Rightarrow> string \<Rightarrow> string" where
  "replace_URL config_base config_assetsDir [] = []"
| "replace_URL config_base config_assetsDir (c # cs) =
     (case regex_exec (c # cs) of
        Some (group1, rest) \<Rightarrow>
          replacement config_base config_assetsDir group1
            @ replace_URL config_base config_assetsDir rest
      | None \<Rightarrow> c # replace_URL config_base config_assetsDir cs)"
  by pat_completeness auto
termination
  by (relation "measure (\<lambda>(b, a, s). length s)") (auto dest: regex_exec_shorter)

text \<open>\<open>regex.test(s)\<close>: the pattern matches somewhere in \<open>s\<close>.\<close>

fun has_match :: "string \<Rightarrow> bool" where
  "has_match [] = False"
| "has_match (c # cs) = (regex_exec (c # cs) \<noteq> None \<or> has_match cs)"

text \<open>The groups the callback of \<open>replace\<close> is called with, in order.\<close>

function captured_groups :: "string \<Rightarrow> string list" where
  "captured_groups [] = []"
| "captured_groups (c # cs) =
     (case regex_exec (c # cs) of
        Some (group1, rest) \<Rightarrow> group1 # captured_groups rest
      | None \<Rightarrow> captured_groups cs)"
  by pat_completeness auto
termination
  by (relation "measure length") (auto dest: regex_exec_shorter)

text \<open>
  What the pattern asks of the line that follows the literal text: a quote after at least
  one character, and a semicolon after at least one more.
\<close>

definition matchable :: "string \<Rightarrow> bool" where
  "matchable L \<longleftrightarrow>
     (\<exists>k < length L. 1 \<le> k \<and> L ! k = CHR 0x27 \<and> CHR '';'' \<in> set (drop (k + 2) L))"

section \<open>The hook \<open>buildStart\<close> (lines 96-159)\<close>

text \<open>
  The text handed to \<open>console.error\<close> when the output directory is missing, without the
  colours of \<open>chalk\<close>.
\<close>

definition missing_message :: "string \<Rightarrow> string \<Rightarrow> bool \<Rightarrow> string" where
  "missing_message pkgPath cratePath isNodeModule' =
     ''Error: Can't find '' @ pkgPath @ '', run ''
       @ (if isNodeModule' then ''npm install '' @ cratePath
          else ''wasm-pack build '' @ cratePath @ '' --target web'')
       @ '' first''"

text \<open>
  \<open>prepareBuild\<close> (lines 97-150); its second parameter is written \<open>isNodeModule'\<close>
  here, the plain name being the field of \<open>CrateType\<close>. A throw ends it: \<open>Inl\<close> carries what was thrown and
  the world as it stood then. \<open>this.error\<close> in the handler of the failed copy throws.
\<close>

definition prepareBuild ::
  "(string \<Rightarrow> string option) \<Rightarrow> string \<Rightarrow> string \<Rightarrow> string \<Rightarrow> bool \<Rightarrow> world
     \<Rightarrow> (error \<times> world) + world" where
  "prepareBuild rr config_base config_assetsDir cratePath isNodeModule' w =
     (case (if isNodeModule' then map_option dirname (rr cratePath)
            else Some (path_join [cratePath, pkg])) of
        None \<Rightarrow> Inl (ModuleNotFound cratePath, w)
      | Some pkgPath \<Rightarrow>
         (let crateName = basename cratePath;
              w1 = (if \<not> existsSync w pkgPath
                    then w\<lparr>console := console w @ [missing_message pkgPath cratePath isNodeModule']\<rparr>
                    else w)
          in case (if \<not> isNodeModule' then copy w1 pkgPath (path_join [''node_modules'', crateName])
                   else Some w1) of
               None \<Rightarrow> Inl (PluginError ''copy crates failed'', w1)
             | Some w2 \<Rightarrow>
                (let jsName = replace_hyphens crateName @ ''.js'';
                     jsPath = (if isNodeModule' then path_join [pkgPath, jsName]
                               else path_join [''./node_modules'', crateName, jsName])
                 in case readFileSync w2 (resolve (cwd w2) jsPath) of
                      Inl e \<Rightarrow> Inl (e, w2)
                    | Inr code \<Rightarrow>
                        Inr (writeFileSync w2 jsPath
                               (replace_URL config_base config_assetsDir code)))))"

text \<open>The two loops of lines 152-158: the local crates first, then the installed ones.\<close>

fun prepare_each ::
  "(string \<Rightarrow> string option) \<Rightarrow> string \<Rightarrow> string \<Rightarrow> bool \<Rightarrow> string list \<Rightarrow> world
     \<Rightarrow> (error \<times> world) + world" where
  "prepare_each rr config_base config_assetsDir isNodeModule' [] w = Inr w"
| "prepare_each rr config_base config_assetsDir isNodeModule' (cratePath # rest) w =
     (case prepareBuild rr config_base config_assetsDir cratePath isNodeModule' w of
        Inl e \<Rightarrow> Inl e
      | Inr w' \<Rightarrow> prepare_each rr config_base config_assetsDir isNodeModule' rest w')"

definition buildStart ::
  "(string \<Rightarrow> string option) \<Rightarrow> string \<Rightarrow> string \<Rightarrow> string list \<Rightarrow> string list \<Rightarrow> world
     \<Rightarrow> (error \<times> world) + world" where
  "buildStart rr config_base config_assetsDir crates mods w =
     (case prepare_each rr config_base config_assetsDir False crates w of
        Inl e \<Rightarrow> Inl e
      | Inr w' \<Rightarrow> prepare_each rr config_base config_assetsDir True mods w')"

section \<open>The middleware of the development server (lines 164-179)\<close>

text \<open>
  The response as the handler leaves it: the headers set, the status once \<open>writeHead\<close> has
  written it, and the body piped into it. What the handler did with the request is an
  \<open>action\<close>: it answered, its read stream failed, it called \<open>next()\<close>, or it did nothing.
\<close>

record response =
  headers :: "(string \<times> string) list"
  statusCode :: "nat option"
  body :: "string option"

datatype action = Answered | StreamFailed error | CalledNext | NoAction

definition middleware ::
  "wasm_map \<Rightarrow> world \<Rightarrow> string option \<Rightarrow> response \<Rightarrow> response \<times> action" where
  "middleware m w req_url res =
     (case req_url of
        None \<Rightarrow> (res, NoAction)
      | Some u \<Rightarrow>
         (let bn = basename u;
              res1 = res\<lparr>headers :=
                       map_set ''Cache-Control'' ''no-cache, no-store, must-revalidate'' (headers res)\<rparr>;
              entry = map_get m bn
          in if suffix ''.wasm'' bn \<and> entry \<noteq> None then
               (let res2 = res1\<lparr>statusCode := Some 200,
                              headers := map_set ''Content-Type'' ''application/wasm'' (headers res1)\<rparr>
                in case readFileSync w (path (the entry)) of
                     Inl e \<Rightarrow> (res2, StreamFailed e)
                   | Inr bytes \<Rightarrow> (res2\<lparr>body := Some bytes\<rparr>, Answered))
             else (res1, CalledNext)))"

section \<open>The hook \<open>buildEnd\<close> (lines 183-192)\<close>

record asset =
  fileName :: string
  source :: string

fun buildEnd :: "wasm_map \<Rightarrow> world \<Rightarrow> error + asset list" where
  "buildEnd [] w = Inr []"
| "buildEnd ((name, crate) # rest) w =
     (case readFileSync w (path crate) of
        Inl e \<Rightarrow> Inl e
      | Inr bytes \<Rightarrow>
          (case buildEnd rest w of
             Inl e \<Rightarrow> Inl e
           | Inr emitted \<Rightarrow> Inr (\<lparr>fileName = ''assets/'' @ name, source = bytes\<rparr> # emitted)))"

section \<open>A project used in the examples\<close>

text \<open>
  One local crate \<open>./my-crate\<close> in the project \<open>/proj\<close>, built by \<open>wasm-pack\<close>: its
  \<open>pkg\<close> directory holds the binary and the loader script.
\<close>

definition demo_map :: wasm_map where
  "demo_map =
     [(''my_crate_bg.wasm'', \<lparr>path = ''my-crate/pkg/my_crate_bg.wasm'', isNodeModule = False\<rparr>)]"

definition demo_loader :: string where
  "demo_loader = ''input = new URL('my_crate_bg.wasm', import.meta.url);''"

definition demo_world :: world where
  "demo_world =
     \<lparr>cwd = ''/proj'',
      files = [''/proj/my-crate/pkg/my_crate_bg.wasm'' \<mapsto> ''wasm-bytes'',
               ''/proj/my-crate/pkg/my_crate.js'' \<mapsto> demo_loader],
      dirs = (\<lambda>d. d = ''/proj'' \<or> d = ''/proj/my-crate'' \<or> d = ''/proj/my-crate/pkg''),
      console = []\<rparr>"

text \<open>A host in which no installed package resolves.\<close>

definition no_modules :: "string \<Rightarrow> string option" where
  "no_modules c = None"

text \<open>A loader script whose captured group holds the text of the pattern itself.\<close>

definition nested_loader :: string where
  "nested_loader = url_literal @ url_literal @ ''a'b;'c;''"

section \<open>What the specification calls the last path segment\<close>

text \<open>
  The specification's words: the last path segment of the source identifier, every hyphen
  replaced by an underscore, and the fixed suffix. The last path segment of a string is the
  last non-empty piece between slashes, and the empty string when there is none.
\<close>

definition last_segment :: "string \<Rightarrow> string" where
  "last_segment s =
     (let segs = filter (\<lambda>x. x \<noteq> []) (split_on (CHR ''/'') s)
      in if segs = [] then [] else last segs)"

definition derivedFilename_spec :: "string \<Rightarrow> string" where
  "derivedFilename_spec s =
     map (\<lambda>c. if c = CHR ''-'' then CHR ''_'' else c) (last_segment s) @ ''_bg.wasm''"




section \<open>Facts about splitting and base names\<close>

lemma split_on_nonempty: "split_on d s \<noteq> []"
  by (induction s) (auto split: list.splits)

lemma split_on_snoc_sep: "split_on d (s @ [d]) = split_on d s @ [[]]"
  by (induction s) (auto split: list.splits simp: split_on_nonempty)

lemma split_on_snoc_other:
  "c \<noteq> d \<Longrightarrow> split_on d (s @ [c]) = butlast (split_on d s) @ [last (split_on d s) @ [c]]"
proof (induction s)
  case Nil
  then show ?case by simp
next
  case (Cons a s)
  show ?case
  proof (cases "split_on d s")
    case Nil
    then show ?thesis using split_on_nonempty by blast
  next
    case (Cons x xs)
    then show ?thesis
      using Cons.IH [OF Cons.prems] split_on_nonempty [of d "s @ [c]"]
      by (cases xs) (auto split: list.splits)
  qed
qed

lemma last_split_on: "last (split_on d s) = rev (takeWhile (\<lambda>c. c \<noteq> d) (rev s))"
proof (induction s rule: rev_induct)
  case Nil
  then show ?case by simp
next
  case (snoc c s)
  then show ?case
    by (cases "c = d") (simp_all add: split_on_snoc_sep split_on_snoc_other)
qed

lemma replace_hyphens_map:
  "replace_hyphens s = map (\<lambda>c. if c = CHR ''-'' then CHR ''_'' else c) s"
  by (induction s) simp_all

lemma basename_last_segment: "basename s = last_segment s"
proof (induction s rule: rev_induct)
  case Nil
  then show ?case by (simp add: basename_def last_segment_def)
next
  case (snoc c s)
  show ?case
  proof (cases "c = CHR ''/''")
    case True
    then show ?thesis
      using snoc by (simp add: basename_def last_segment_def split_on_snoc_sep)
  next
    case False
    have "basename (s @ [c]) = last (split_on (CHR ''/'') s) @ [c]"
      using False by (simp add: basename_def last_split_on)
    moreover have "last_segment (s @ [c]) = last (split_on (CHR ''/'') s) @ [c]"
      using False by (simp add: last_segment_def split_on_snoc_other)
    ultimately show ?thesis by simp
  qed
qed

lemma map_get_map_set: "map_get (map_set k v m) k' = (if k' = k then Some v else map_get m k')"
  by (induction m) (auto simp: map_get_def)

section \<open>Facts about the resolution mapping\<close>















section \<open>Facts about the pattern and the rewrite\<close>

lemma dots_semicolon_None_iff:
  "dots_semicolon n s = None \<longleftrightarrow> (\<forall>i. 1 \<le> i \<and> i \<le> n \<and> i < length s \<longrightarrow> s ! i \<noteq> CHR '';'')"
proof (induction n)
  case 0
  then show ?case by simp
next
  case (Suc n)
  show ?case
  proof (cases "Suc n < length s \<and> s ! Suc n = CHR '';''")
    case True
    then show ?thesis by auto
  next
    case False
    then have "dots_semicolon (Suc n) s = dots_semicolon n s" by auto
    moreover have "(\<forall>i. 1 \<le> i \<and> i \<le> Suc n \<and> i < length s \<longrightarrow> s ! i \<noteq> CHR '';'')
        \<longleftrightarrow> (\<forall>i. 1 \<le> i \<and> i \<le> n \<and> i < length s \<longrightarrow> s ! i \<noteq> CHR '';'')"
      using False by (metis le_Suc_eq)
    ultimately show ?thesis using Suc.IH by simp
  qed
qed

lemma dots_semicolon_eqI:
  "1 \<le> j \<Longrightarrow> j \<le> n \<Longrightarrow> j < length s \<Longrightarrow> s ! j = CHR '';'' \<Longrightarrow>
   (\<forall>i. j < i \<and> i \<le> n \<and> i < length s \<longrightarrow> s ! i \<noteq> CHR '';'') \<Longrightarrow>
   dots_semicolon n s = Some (drop (Suc j) s)"
proof (induction n)
  case 0
  then show ?case by simp
next
  case (Suc n)
  show ?case
  proof (cases "j = Suc n")
    case True
    with Suc.prems show ?thesis by simp
  next
    case False
    with Suc.prems have jn: "j \<le> n" "j < Suc n" by simp_all
    from Suc.prems(5) jn have "\<not> (Suc n < length s \<and> s ! Suc n = CHR '';'')"
      by blast
    then have "dots_semicolon (Suc n) s = dots_semicolon n s"
      by auto
    moreover have "dots_semicolon n s = Some (drop (Suc j) s)"
      using Suc.IH [OF Suc.prems(1) jn(1) Suc.prems(3,4)] Suc.prems(5) by simp
    ultimately show ?thesis by simp
  qed
qed

lemma group_quote_eqI:
  "1 \<le> k \<Longrightarrow> k \<le> n \<Longrightarrow> k < length s \<Longrightarrow> s ! k = CHR 0x27 \<Longrightarrow>
   dots_semicolon (dot_run (drop (Suc k) s)) (drop (Suc k) s) = Some rest \<Longrightarrow>
   (\<forall>i. k < i \<and> i \<le> n \<and> i < length s \<and> s ! i = CHR 0x27 \<longrightarrow>
        dots_semicolon (dot_run (drop (Suc i) s)) (drop (Suc i) s) = None) \<Longrightarrow>
   group_quote n s = Some (take k s, rest)"
proof (induction n)
  case 0
  then show ?case by simp
next
  case (Suc n)
  show ?case
  proof (cases "k = Suc n")
    case True
    with Suc.prems show ?thesis by (simp add: Let_def)
  next
    case False
    with Suc.prems have kn: "k \<le> n" "k < Suc n" by simp_all
    have "group_quote (Suc n) s = group_quote n s"
    proof (cases "Suc n < length s \<and> s ! Suc n = CHR 0x27")
      case True
      with Suc.prems(6) kn
      have "dots_semicolon (dot_run (drop (Suc (Suc n)) s)) (drop (Suc (Suc n)) s) = None"
        by blast
      with True show ?thesis by (simp add: Let_def)
    next
      case False
      then show ?thesis by auto
    qed
    moreover have "group_quote n s = Some (take k s, rest)"
      using Suc.IH [OF Suc.prems(1) kn(1) Suc.prems(3,4,5)] Suc.prems(6) by simp
    ultimately show ?thesis by simp
  qed
qed

lemma group_quote_None_iff:
  "group_quote n s = None \<longleftrightarrow>
     (\<forall>i. 1 \<le> i \<and> i \<le> n \<and> i < length s \<and> s ! i = CHR 0x27 \<longrightarrow>
        dots_semicolon (dot_run (drop (Suc i) s)) (drop (Suc i) s) = None)"
proof (induction n)
  case 0
  then show ?case by simp
next
  case (Suc n)
  show ?case
  proof (cases "Suc n < length s \<and> s ! Suc n = CHR 0x27
       \<and> dots_semicolon (dot_run (drop (Suc (Suc n)) s)) (drop (Suc (Suc n)) s) \<noteq> None")
    case True
    then have "group_quote (Suc n) s \<noteq> None" by (auto simp: Let_def)
    moreover from True have "\<not> (\<forall>i. 1 \<le> i \<and> i \<le> Suc n \<and> i < length s \<and> s ! i = CHR 0x27 \<longrightarrow>
        dots_semicolon (dot_run (drop (Suc i) s)) (drop (Suc i) s) = None)"
      by (metis le_refl le_add1 plus_1_eq_Suc)
    ultimately show ?thesis by blast
  next
    case False
    then have "group_quote (Suc n) s = group_quote n s"
      by (auto simp: Let_def split: option.splits)
    moreover have "(\<forall>i. 1 \<le> i \<and> i \<le> Suc n \<and> i < length s \<and> s ! i = CHR 0x27 \<longrightarrow>
        dots_semicolon (dot_run (drop (Suc i) s)) (drop (Suc i) s) = None)
      \<longleftrightarrow> (\<forall>i. 1 \<le> i \<and> i \<le> n \<and> i < length s \<and> s ! i = CHR 0x27 \<longrightarrow>
        dots_semicolon (dot_run (drop (Suc i) s)) (drop (Suc i) s) = None)"
      using False by (metis le_Suc_eq)
    ultimately show ?thesis using Suc.IH by simp
  qed
qed

lemma first_line_nth: "i < dot_run p \<Longrightarrow> p ! i = first_line p ! i"
  by (simp add: dot_run_def first_line_def takeWhile_nth)

lemma dot_run_le: "dot_run p \<le> length p"
  by (simp add: dot_run_def first_line_def length_takeWhile_le)

lemma at_dot_run: "dot_run p < length p \<Longrightarrow> line_terminator (p ! dot_run p)"
  using nth_length_takeWhile [of "\<lambda>c. \<not> line_terminator c" p]
  by (simp add: dot_run_def first_line_def)

lemma upto_run_not:
  assumes "c \<notin> set (first_line p)" and "\<not> line_terminator c"
    and "i \<le> dot_run p" and "i < length p"
  shows "p ! i \<noteq> c"
proof (cases "i < dot_run p")
  case True
  then have "p ! i \<in> set (first_line p)"
    by (simp add: first_line_nth dot_run_def)
  with assms(1) show ?thesis by auto
next
  case False
  with assms(3) have "i = dot_run p" by simp
  with assms(4) at_dot_run have "line_terminator (p ! i)" by simp
  with assms(2) show ?thesis by auto
qed

lemma first_line_append:
  "\<forall>c \<in> set xs. \<not> line_terminator c \<Longrightarrow> first_line (xs @ ys) = xs @ first_line ys"
  by (simp add: first_line_def takeWhile_append2)

lemma first_line_drop:
  "d \<le> dot_run p \<Longrightarrow> first_line (drop d p) = drop d (first_line p)"
  unfolding dot_run_def first_line_def
proof (induction p arbitrary: d)
  case Nil
  then show ?case by simp
next
  case (Cons a p)
  then show ?case by (cases d) (auto split: if_splits)
qed

lemma in_set_drop_conv_nth:
  "x \<in> set (drop n xs) \<longleftrightarrow> (\<exists>i. n \<le> i \<and> i < length xs \<and> xs ! i = x)"
proof
  assume "x \<in> set (drop n xs)"
  then obtain j where j: "j < length (drop n xs)" "drop n xs ! j = x"
    by (auto simp: in_set_conv_nth)
  then have "n \<le> n + j \<and> n + j < length xs \<and> xs ! (n + j) = x"
    by auto
  then show "\<exists>i. n \<le> i \<and> i < length xs \<and> xs ! i = x"
    by blast
next
  assume "\<exists>i. n \<le> i \<and> i < length xs \<and> xs ! i = x"
  then obtain i where i: "n \<le> i" "i < length xs" "xs ! i = x"
    by blast
  then have "i - n < length (drop n xs)" "drop n xs ! (i - n) = x"
    by auto
  then show "x \<in> set (drop n xs)"
    by (auto simp: in_set_conv_nth)
qed

lemma tail_none:
  assumes "CHR '';'' \<notin> set (drop 1 (first_line u))"
  shows "dots_semicolon (dot_run u) u = None"
proof -
  have "u ! i \<noteq> CHR '';''" if i: "1 \<le> i" "i \<le> dot_run u" "i < length u" for i
  proof (cases "i < dot_run u")
    case True
    then have "u ! i = first_line u ! i" by (rule first_line_nth)
    moreover have "first_line u ! i \<in> set (drop 1 (first_line u))"
      using True i(1) by (auto simp: in_set_drop_conv_nth dot_run_def)
    ultimately show ?thesis using assms by auto
  next
    case False
    with i have "i = dot_run u" by simp
    with i(3) at_dot_run have "line_terminator (u ! i)" by simp
    then show ?thesis by (auto simp: line_terminator_def)
  qed
  then show ?thesis by (simp add: dots_semicolon_None_iff)
qed

lemma tail_some:
  assumes "CHR '';'' \<in> set (drop 1 (first_line u))"
  shows "dots_semicolon (dot_run u) u \<noteq> None"
proof -
  from assms obtain i where i: "1 \<le> i" "i < length (first_line u)" "first_line u ! i = CHR '';''"
    by (auto simp: in_set_drop_conv_nth)
  then have "i < dot_run u" by (simp add: dot_run_def)
  with i have "1 \<le> i \<and> i \<le> dot_run u \<and> i < length u \<and> u ! i = CHR '';''"
    using dot_run_le [of u] by (simp add: first_line_nth)
  then show ?thesis by (auto simp: dots_semicolon_None_iff)
qed

lemma semicolon_not_lt: "\<not> line_terminator (CHR '';'')"
  by (simp add: line_terminator_def)

lemma quote_not_lt: "\<not> line_terminator (CHR 0x27)"
  by (simp add: line_terminator_def)

text \<open>After the group's quote: the dots take \<open>mid\<close> and the semicolon is the last of the line.\<close>

lemma dots_semicolon_mid:
  assumes mid: "mid \<noteq> []" "\<forall>c \<in> set mid. \<not> line_terminator c"
    and post: "CHR '';'' \<notin> set (first_line post)"
  shows "dots_semicolon (dot_run (mid @ CHR '';'' # post)) (mid @ CHR '';'' # post) = Some post"
proof -
  let ?u = "mid @ CHR '';'' # post"
  have fl: "first_line ?u = mid @ CHR '';'' # first_line post"
    using mid(2) first_line_append [of "mid @ [CHR '';'']" post]
    by (simp add: semicolon_not_lt)
  then have run: "dot_run ?u = length mid + 1 + dot_run post"
    by (simp add: dot_run_def)
  have later: "?u ! i \<noteq> CHR '';''" if i: "length mid < i" "i \<le> dot_run ?u" "i < length ?u" for i
  proof -
    from i have "?u ! i = post ! (i - length mid - 1)"
      by (simp add: nth_append nth_Cons')
    moreover have "post ! (i - length mid - 1) \<noteq> CHR '';''"
      using i run by (intro upto_run_not [OF post semicolon_not_lt]) auto
    ultimately show ?thesis by simp
  qed
  have one: "1 \<le> length mid"
    using mid(1) by (cases mid) auto
  have "dots_semicolon (dot_run ?u) ?u = Some (drop (Suc (length mid)) ?u)"
    using one run later
    by (intro dots_semicolon_eqI) (auto simp: nth_append)
  then show ?thesis by simp
qed

lemma no_tail_in_post:
  assumes post: "CHR '';'' \<notin> set (first_line post)" and d: "d \<le> dot_run post"
  shows "dots_semicolon (dot_run (drop d post)) (drop d post) = None"
proof -
  have "first_line (drop d post) = drop d (first_line post)"
    using d by (rule first_line_drop)
  then have "set (drop 1 (first_line (drop d post))) \<subseteq> set (first_line post)"
    by (metis drop_drop set_drop_subset)
  with post show ?thesis
    by (intro tail_none) auto
qed

lemma group_quote_match:
  assumes g: "g \<noteq> []" "\<forall>c \<in> set g. \<not> line_terminator c"
    and mid: "mid \<noteq> []" "\<forall>c \<in> set mid. \<not> line_terminator c" "CHR 0x27 \<notin> set (butlast mid)"
    and post: "CHR '';'' \<notin> set (first_line post)"
  shows "group_quote (dot_run (g @ CHR 0x27 # mid @ CHR '';'' # post))
           (g @ CHR 0x27 # mid @ CHR '';'' # post) = Some (g, post)"
proof -
  let ?u = "mid @ CHR '';'' # post"
  let ?t = "g @ CHR 0x27 # ?u"
  have fl: "first_line ?t = g @ CHR 0x27 # first_line ?u"
    using g(2) first_line_append [of "g @ [CHR 0x27]" ?u]
    by (simp add: quote_not_lt)
  have flu: "first_line ?u = mid @ CHR '';'' # first_line post"
    using mid(2) first_line_append [of "mid @ [CHR '';'']" post]
    by (simp add: semicolon_not_lt)
  have run: "dot_run ?t = length g + length mid + 2 + dot_run post"
    using fl flu by (simp add: dot_run_def)
  have later: "dots_semicolon (dot_run (drop (Suc i) ?t)) (drop (Suc i) ?t) = None"
    if i: "length g < i" "i \<le> dot_run ?t" "i < length ?t" "?t ! i = CHR 0x27" for i
  proof -
    consider (a) "i < length g + length mid" | (b) "i = length g + length mid"
      | (c) "i = length g + length mid + 1" | (d) "length g + length mid + 1 < i"
      by linarith
    then show ?thesis
    proof cases
      case a
      define j where "j = i - length g - 1"
      from a i(1) have ij: "i = length g + 1 + j" and j: "j < length (butlast mid)"
        by (simp_all add: j_def)
      from j have "j < length mid"
        by simp
      with ij have "?t ! i = mid ! j"
        by (simp add: nth_append)
      also from j have "\<dots> = butlast mid ! j"
        by (simp add: nth_butlast)
      finally have "?t ! i \<in> set (butlast mid)"
        using j by simp
      with i(4) mid(3) show ?thesis by simp
    next
      case b
      with mid(1) have "drop (Suc i) ?t = CHR '';'' # post"
        by simp
      moreover have "CHR '';'' \<notin> set (drop 1 (first_line (CHR '';'' # post)))"
        using post by (simp add: first_line_def semicolon_not_lt)
      ultimately show ?thesis
        by (simp add: tail_none)
    next
      case c
      then have "?t ! i = CHR '';''"
        by (simp add: nth_append)
      with i(4) show ?thesis by simp
    next
      case d
      define k where "k = i - (length g + length mid + 2)"
      from d have ik: "i = length g + length mid + 2 + k"
        by (simp add: k_def)
      with i(2,3) run have k: "k \<le> dot_run post" "k < length post"
        by simp_all
      from ik have tk: "?t ! i = post ! k"
        by (simp add: nth_append)
      have "k \<noteq> dot_run post"
        using at_dot_run [of post] k(2) tk i(4) quote_not_lt by auto
      with k(1) have "Suc k \<le> dot_run post" by simp
      moreover from ik have "drop (Suc i) ?t = drop (Suc k) post"
        by (simp add: numeral_3_eq_3)
      ultimately show ?thesis
        using no_tail_in_post [OF post] by simp
    qed
  qed
  have "group_quote (dot_run ?t) ?t = Some (take (length g) ?t, post)"
  proof (rule group_quote_eqI)
    show "1 \<le> length g" using g(1) by (cases g) auto
    show "length g \<le> dot_run ?t" using run by simp
    show "length g < length ?t" by simp
    show "?t ! length g = CHR 0x27" by simp
    show "dots_semicolon (dot_run (drop (Suc (length g)) ?t)) (drop (Suc (length g)) ?t) = Some post"
      using dots_semicolon_mid [OF mid(1,2) post] by simp
    show "\<forall>i. length g < i \<and> i \<le> dot_run ?t \<and> i < length ?t \<and> ?t ! i = CHR 0x27 \<longrightarrow>
        dots_semicolon (dot_run (drop (Suc i) ?t)) (drop (Suc i) ?t) = None"
      using later by blast
  qed
  then show ?thesis by simp
qed

lemma length_url_literal: "length url_literal = 17"
  by (simp add: url_literal_def)

lemma regex_exec_match:
  assumes "g \<noteq> []" "\<forall>c \<in> set g. \<not> line_terminator c"
    and "mid \<noteq> []" "\<forall>c \<in> set mid. \<not> line_terminator c" "CHR 0x27 \<notin> set (butlast mid)"
    and "CHR '';'' \<notin> set (first_line post)"
  shows "regex_exec (url_literal @ g @ CHR 0x27 # mid @ CHR '';'' # post) = Some (g, post)"
  using group_quote_match [OF assms] by (simp add: regex_exec_def)

lemma regex_exec_Nil: "regex_exec [] = None"
  by (simp add: regex_exec_def url_literal_def)

lemma replace_URL_match:
  assumes "regex_exec s = Some (g, rest)"
  shows "replace_URL b a s = replacement b a g @ replace_URL b a rest"
proof (cases s)
  case Nil
  with assms show ?thesis by (simp add: regex_exec_Nil)
next
  case (Cons c cs)
  with assms show ?thesis by simp
qed



section \<open>Facts about a second rewrite\<close>

lemma replace_URL_fixed: "\<not> has_match s \<Longrightarrow> replace_URL b a s = s"
  by (induction s) (auto split: option.splits)

lemma replacement_differs:
  assumes "regex_exec s = Some (g, rest)"
  shows "replacement b a g @ x \<noteq> s"
proof -
  from assms have "prefix url_literal s"
    by (auto simp: regex_exec_def split: if_splits)
  then obtain y where "s = url_literal @ y"
    by (auto simp: prefix_def)
  then have "s ! 8 = CHR ''n''"
    by (simp add: url_literal_def)
  moreover have "(replacement b a g @ x) ! 8 = CHR 0x22"
    by (simp add: replacement_def)
  ultimately show ?thesis by auto
qed

lemma replace_URL_moves: "has_match s \<Longrightarrow> replace_URL b a s \<noteq> s"
proof (induction s)
  case Nil
  then show ?case by simp
next
  case (Cons c cs)
  show ?case
  proof (cases "regex_exec (c # cs)")
    case None
    with Cons show ?thesis by simp
  next
    case (Some m)
    obtain g rest where "m = (g, rest)" by (cases m)
    with Some replacement_differs [of "c # cs" g rest b a] show ?thesis
      by simp
  qed
qed

lemma rewrite_nested_once: "replace_URL ''/'' ''assets'' nested_loader
   = ''input = '' @ [CHR 0x22] @ ''/assets/'' @ url_literal @ ''a'b;'' @ [CHR 0x22]"
  by (simp add: nested_loader_def regex_exec_def url_literal_def dot_run_def first_line_def
      line_terminator_def replacement_def path_join_def normalize_def normalizeString_def norm_step_def)

lemma rewrite_nested_twice: "replace_URL ''/'' ''assets'' (''input = '' @ [CHR 0x22] @ ''/assets/'' @ url_literal @ ''a'b;'' @ [CHR 0x22])
   = ''input = '' @ [CHR 0x22] @ ''/assets/input = '' @ [CHR 0x22] @ ''/assets/a'' @ [CHR 0x22, CHR 0x22]"
  by (simp add: regex_exec_def url_literal_def dot_run_def first_line_def
      line_terminator_def replacement_def path_join_def normalize_def normalizeString_def norm_step_def)

section \<open>The rewritten text and the pattern\<close>

lemma no_i_in_tail: "CHR ''i'' \<notin> set (tl url_literal)"
  by (simp add: url_literal_def)

lemma no_dq_in_literal: "CHR 0x22 \<notin> set url_literal"
  by (simp add: url_literal_def)

lemma no_slash_in_literal: "CHR ''/'' \<notin> set url_literal"
  by (simp add: url_literal_def)

lemma no_lt_in_literal: "\<forall>c \<in> set url_literal. \<not> line_terminator c"
  by (simp add: url_literal_def line_terminator_def)

lemma regex_exec_starts_i: "regex_exec (c # cs) \<noteq> None \<Longrightarrow> c = CHR ''i''"
  by (auto simp: regex_exec_def url_literal_def split: if_splits)

lemma replacement_starts_i: "\<exists>r. replacement b a g = CHR ''i'' # r"
  by (simp add: replacement_def)

lemma replace_URL_keeps:
  "CHR ''i'' \<notin> set v \<Longrightarrow> replace_URL b a (v @ y) = v @ replace_URL b a y"
proof (induction v)
  case Nil
  then show ?case by simp
next
  case (Cons d v)
  have "regex_exec (d # v @ y) = None"
  proof (rule ccontr)
    assume "regex_exec (d # v @ y) \<noteq> None"
    then have "d = CHR ''i''" by (rule regex_exec_starts_i)
    with Cons.prems show False by simp
  qed
  with Cons show ?case by simp
qed

lemma prefix_of_rewritten:
  "CHR ''i'' \<notin> set v \<Longrightarrow> prefix v (replace_URL b a x) \<Longrightarrow> prefix v x"
proof (induction v arbitrary: x)
  case Nil
  then show ?case by simp
next
  case (Cons d v)
  show ?case
  proof (cases x)
    case Nil
    with Cons.prems show ?thesis by simp
  next
    case (Cons y ys)
    show ?thesis
    proof (cases "regex_exec (y # ys)")
      case None
      with Cons.prems \<open>x = y # ys\<close> have "d = y" "prefix v (replace_URL b a ys)"
        by simp_all
      with Cons.IH [of ys] Cons.prems(1) \<open>x = y # ys\<close> show ?thesis
        by simp
    next
      case (Some m)
      obtain g rest where "m = (g, rest)" by (cases m)
      with Some \<open>x = y # ys\<close> have "replace_URL b a x = replacement b a g @ replace_URL b a rest"
        by simp
      with Cons.prems replacement_starts_i [of b a g] show ?thesis
        by auto
    qed
  qed
qed

lemma line_matches_iff:
  "group_quote (dot_run t) t \<noteq> None \<longleftrightarrow> matchable (first_line t)"
proof
  assume "group_quote (dot_run t) t \<noteq> None"
  then have "\<exists>i. 1 \<le> i \<and> i \<le> dot_run t \<and> i < length t \<and> t ! i = CHR 0x27
      \<and> dots_semicolon (dot_run (drop (Suc i) t)) (drop (Suc i) t) \<noteq> None"
    unfolding group_quote_None_iff by blast
  then obtain i where i: "1 \<le> i" "i \<le> dot_run t" "i < length t" "t ! i = CHR 0x27"
    and tail: "dots_semicolon (dot_run (drop (Suc i) t)) (drop (Suc i) t) \<noteq> None"
    by blast
  have "i \<noteq> dot_run t"
    using at_dot_run [of t] i(3,4) quote_not_lt by auto
  with i(2) have lt: "i < dot_run t" by simp
  then have "first_line (drop (Suc i) t) = drop (Suc i) (first_line t)"
    by (intro first_line_drop) simp
  moreover have "CHR '';'' \<in> set (drop 1 (first_line (drop (Suc i) t)))"
  proof (rule ccontr)
    assume "CHR '';'' \<notin> set (drop 1 (first_line (drop (Suc i) t)))"
    then have "dots_semicolon (dot_run (drop (Suc i) t)) (drop (Suc i) t) = None"
      by (rule tail_none)
    with tail show False by simp
  qed
  ultimately have "CHR '';'' \<in> set (drop (i + 2) (first_line t))"
    by simp
  moreover from lt i(4) have "first_line t ! i = CHR 0x27"
    by (simp add: first_line_nth)
  ultimately have "i < length (first_line t) \<and> 1 \<le> i \<and> first_line t ! i = CHR 0x27
      \<and> CHR '';'' \<in> set (drop (i + 2) (first_line t))"
    using lt i(1) by (simp add: dot_run_def)
  then show "matchable (first_line t)"
    unfolding matchable_def by blast
next
  assume "matchable (first_line t)"
  then obtain k where k: "k < length (first_line t)" "1 \<le> k" "first_line t ! k = CHR 0x27"
    and semi: "CHR '';'' \<in> set (drop (k + 2) (first_line t))"
    unfolding matchable_def by blast
  from k(1) have lt: "k < dot_run t" by (simp add: dot_run_def)
  then have "first_line (drop (Suc k) t) = drop (Suc k) (first_line t)"
    by (intro first_line_drop) simp
  with semi have "CHR '';'' \<in> set (drop 1 (first_line (drop (Suc k) t)))"
    by simp
  then have tail: "dots_semicolon (dot_run (drop (Suc k) t)) (drop (Suc k) t) \<noteq> None"
    by (rule tail_some)
  from lt k(3) have q: "t ! k = CHR 0x27"
    by (simp add: first_line_nth)
  from lt have b: "k \<le> dot_run t" "k < length t"
    using dot_run_le [of t] by simp_all
  show "group_quote (dot_run t) t \<noteq> None"
  proof
    assume "group_quote (dot_run t) t = None"
    then have "\<forall>i. 1 \<le> i \<and> i \<le> dot_run t \<and> i < length t \<and> t ! i = CHR 0x27 \<longrightarrow>
        dots_semicolon (dot_run (drop (Suc i) t)) (drop (Suc i) t) = None"
      by (simp only: group_quote_None_iff)
    then have "1 \<le> k \<and> k \<le> dot_run t \<and> k < length t \<and> t ! k = CHR 0x27 \<longrightarrow>
        dots_semicolon (dot_run (drop (Suc k) t)) (drop (Suc k) t) = None"
      by (rule spec)
    with k(2) b q tail show False
      by simp
  qed
qed

lemma regex_exec_iff:
  "regex_exec s \<noteq> None \<longleftrightarrow>
     prefix url_literal s \<and> matchable (first_line (drop (length url_literal) s))"
  using line_matches_iff [of "drop (length url_literal) s"]
  by (simp add: regex_exec_def Let_def)

lemma matchable_Cons: "matchable L \<Longrightarrow> matchable (c # L)"
proof -
  assume "matchable L"
  then obtain k where "k < length L" "1 \<le> k" "L ! k = CHR 0x27"
    "CHR '';'' \<in> set (drop (k + 2) L)"
    by (auto simp: matchable_def)
  then have "Suc k < length (c # L) \<and> 1 \<le> Suc k \<and> (c # L) ! Suc k = CHR 0x27
      \<and> CHR '';'' \<in> set (drop (Suc k + 2) (c # L))"
    by simp
  then show ?thesis
    unfolding matchable_def by blast
qed

lemma matchable_append: "matchable L \<Longrightarrow> matchable (x @ L)"
  by (induction x) (simp_all add: matchable_Cons)

lemma first_line_Cons:
  "first_line (c # cs) = (if line_terminator c then [] else c # first_line cs)"
  by (simp add: first_line_def)

lemma i_not_lt: "\<not> line_terminator (CHR ''i'')"
  by (simp add: line_terminator_def)

lemma first_line_literal: "first_line (url_literal @ y) = url_literal @ first_line y"
  using no_lt_in_literal by (rule first_line_append)

lemma regex_exec_matchD:
  assumes "regex_exec s \<noteq> None"
  shows "prefix url_literal s" and "matchable (first_line (drop (length url_literal) s))"
  using assms regex_exec_iff [of s] by blast+

lemma regex_exec_matchI:
  assumes "prefix url_literal s" and "matchable (first_line (drop (length url_literal) s))"
  shows "regex_exec s \<noteq> None"
  using assms regex_exec_iff [of s] by blast

lemma regex_exec_NoneI:
  assumes "\<not> matchable (first_line s)"
  shows "regex_exec s = None"
proof (rule ccontr)
  assume "regex_exec s \<noteq> None"
  then have p: "prefix url_literal s"
    and m: "matchable (first_line (drop (length url_literal) s))"
    by (rule regex_exec_matchD)+
  from p obtain y where y: "s = url_literal @ y"
    by (auto simp: prefix_def)
  with m have "matchable (first_line y)"
    by simp
  then have "matchable (url_literal @ first_line y)"
    by (rule matchable_append)
  with y assms show False
    by (simp add: first_line_literal)
qed

lemma first_line_rewritten:
  "\<not> matchable (first_line s) \<Longrightarrow> first_line (replace_URL b a s) = first_line s"
proof (induction s)
  case Nil
  then show ?case by simp
next
  case (Cons c cs)
  have none: "regex_exec (c # cs) = None"
    using Cons.prems by (rule regex_exec_NoneI)
  show ?case
  proof (cases "line_terminator c")
    case True
    with none show ?thesis
      by (simp add: first_line_Cons)
  next
    case False
    with Cons.prems have "\<not> matchable (c # first_line cs)"
      by (simp add: first_line_Cons)
    then have "\<not> matchable (first_line cs)"
      using matchable_Cons by blast
    then have "first_line (replace_URL b a cs) = first_line cs"
      by (rule Cons.IH)
    with none False show ?thesis
      by (simp add: first_line_Cons)
  qed
qed

lemma head_stays_unmatched:
  assumes "regex_exec s = None"
  shows "regex_exec (replace_URL b a s) = None"
proof (rule ccontr)
  assume m: "regex_exec (replace_URL b a s) \<noteq> None"
  then have p: "prefix url_literal (replace_URL b a s)"
    by (rule regex_exec_matchD)
  have "s \<noteq> []"
    using m by (auto simp: regex_exec_Nil)
  then obtain c cs where s: "s = c # cs"
    by (cases s) auto
  with assms have r: "replace_URL b a s = c # replace_URL b a cs"
    by simp
  define u where "u = tl url_literal"
  have lit: "url_literal = CHR ''i'' # u"
    by (simp add: u_def url_literal_def)
  have nu: "CHR ''i'' \<notin> set u"
    by (simp add: u_def url_literal_def)
  from p r have "prefix (CHR ''i'' # u) (c # replace_URL b a cs)"
    by (simp add: lit)
  then have c: "c = CHR ''i''" and pu: "prefix u (replace_URL b a cs)"
    by simp_all
  from nu pu have "prefix u cs"
    by (rule prefix_of_rewritten)
  then obtain y where cs: "cs = u @ y"
    by (auto simp: prefix_def)
  have sy: "s = url_literal @ y"
    by (simp add: s c cs lit)
  have "replace_URL b a (u @ y) = u @ replace_URL b a y"
    using nu by (rule replace_URL_keeps)
  then have ry: "replace_URL b a s = url_literal @ replace_URL b a y"
    by (simp add: r c cs lit)
  from m have "matchable (first_line (drop (length url_literal) (replace_URL b a s)))"
    by (rule regex_exec_matchD)
  then have "matchable (first_line (replace_URL b a y))"
    by (simp add: ry)
  moreover have "\<not> matchable (first_line y)"
  proof
    assume "matchable (first_line y)"
    then have "regex_exec s \<noteq> None"
      by (intro regex_exec_matchI) (simp_all add: sy)
    with assms show False by simp
  qed
  ultimately show False
    by (simp add: first_line_rewritten)
qed

lemma has_match_appendD:
  "has_match (x @ y) \<Longrightarrow> (\<forall>j < length x. \<not> prefix url_literal (drop j x @ y)) \<Longrightarrow> has_match y"
proof (induction x)
  case Nil
  then show ?case by simp
next
  case (Cons c x)
  from Cons.prems(2) have "\<not> prefix url_literal (drop 0 (c # x) @ y)"
    by blast
  then have "regex_exec (c # x @ y) = None"
    using regex_exec_matchD(1) [of "c # x @ y"] by (cases "regex_exec (c # x @ y)") simp_all
  with Cons.prems(1) have hm: "has_match (x @ y)"
    by simp
  have "\<forall>j < length x. \<not> prefix url_literal (drop j x @ y)"
  proof (intro allI impI)
    fix j assume "j < length x"
    then have "Suc j < length (c # x)" by simp
    with Cons.prems(2) have "\<not> prefix url_literal (drop (Suc j) (c # x) @ y)"
      by blast
    then show "\<not> prefix url_literal (drop j x @ y)" by simp
  qed
  with hm show ?case by (rule Cons.IH)
qed

lemma prefix_before_char:
  assumes "d \<notin> set l" and "prefix l (u @ d # B)"
  shows "prefix l u"
proof -
  from assms(2) consider "prefix l u" | us where "l = u @ us" "prefix us (d # B)"
    by (auto simp: prefix_append)
  then show ?thesis
  proof cases
    case 1
    then show ?thesis .
  next
    case 2
    show ?thesis
    proof (cases us)
      case Nil
      with 2 show ?thesis by simp
    next
      case (Cons e es)
      with 2 have "e = d" by simp
      with 2 Cons assms(1) show ?thesis by simp
    qed
  qed
qed

lemma no_literal_in_quoted:
  assumes J: "\<not> sublist l J" and d: "d \<notin> set l" and P: "length P < length l"
    and j: "j < length (P @ d # J @ [d])"
  shows "\<not> prefix l (drop j (P @ d # J @ [d]) @ Y)"
proof
  assume p: "prefix l (drop j (P @ d # J @ [d]) @ Y)"
  show False
  proof (cases "j \<le> length P")
    case True
    then have "drop j (P @ d # J @ [d]) @ Y = drop j P @ d # (J @ d # Y)"
      by simp
    with p have "prefix l (drop j P)"
      using prefix_before_char [OF d] by metis
    then have "length l \<le> length (drop j P)"
      by (rule prefix_length_le)
    with P show False
      by simp
  next
    case False
    define k where "k = j - Suc (length P)"
    from False have jk: "j = Suc (length P) + k" by (simp add: k_def)
    with j have "k \<le> length J" by simp
    with jk have "drop j (P @ d # J @ [d]) @ Y = drop k J @ d # Y"
      by simp
    with p have "prefix l (drop k J)"
      using prefix_before_char [OF d] by metis
    then obtain ss where "drop k J = l @ ss"
      by (auto simp: prefix_def)
    then have "J = take k J @ l @ ss"
      by (metis append_take_drop_id)
    then have "sublist l J"
      unfolding sublist_def by blast
    with J show False by simp
  qed
qed

lemma no_literal_in_replacement:
  assumes "\<not> sublist url_literal (path_join [b, a, g])"
    and "j < length (replacement b a g)"
  shows "\<not> prefix url_literal (drop j (replacement b a g) @ Y)"
proof -
  have R: "replacement b a g = ''input = '' @ CHR 0x22 # path_join [b, a, g] @ [CHR 0x22]"
    by (simp add: replacement_def)
  have "length ''input = '' < length url_literal"
    by (simp add: length_url_literal)
  with assms show ?thesis
    unfolding R by (intro no_literal_in_quoted no_dq_in_literal)
qed

lemma rewritten_has_no_match:
  "\<forall>g \<in> set (captured_groups s). \<not> sublist url_literal (path_join [b, a, g]) \<Longrightarrow>
   \<not> has_match (replace_URL b a s)"
proof (induction "length s" arbitrary: s rule: less_induct)
  case less
  show ?case
  proof (cases s)
    case Nil
    then show ?thesis by simp
  next
    case (Cons c cs)
    show ?thesis
    proof (cases "regex_exec (c # cs)")
      case None
      with Cons have r: "replace_URL b a s = c # replace_URL b a cs"
        and g: "captured_groups s = captured_groups cs"
        by simp_all
      from None have "regex_exec (replace_URL b a (c # cs)) = None"
        by (rule head_stays_unmatched)
      with None have "regex_exec (c # replace_URL b a cs) = None"
        by simp
      moreover have "\<not> has_match (replace_URL b a cs)"
        using less.hyps [of cs] less.prems Cons g by simp
      ultimately show ?thesis
        by (simp add: r)
    next
      case (Some m)
      obtain g rest where m: "m = (g, rest)" by (cases m)
      with Some Cons have r: "replace_URL b a s = replacement b a g @ replace_URL b a rest"
        and gs: "captured_groups s = g # captured_groups rest"
        by simp_all
      from Some m have "length rest < length (c # cs)"
        by (intro regex_exec_shorter [of _ g]) simp
      with Cons have "length rest < length s"
        by simp
      moreover from less.prems gs
      have "\<forall>g \<in> set (captured_groups rest). \<not> sublist url_literal (path_join [b, a, g])"
        by simp
      ultimately have rest: "\<not> has_match (replace_URL b a rest)"
        by (rule less.hyps)
      from less.prems gs have "\<not> sublist url_literal (path_join [b, a, g])"
        by simp
      then have "\<forall>j < length (replacement b a g).
          \<not> prefix url_literal (drop j (replacement b a g) @ replace_URL b a rest)"
        using no_literal_in_replacement by blast
      with rest show ?thesis
        unfolding r using has_match_appendD by blast
    qed
  qed
qed

lemma sublist_trans: "sublist xs ys \<Longrightarrow> sublist ys zs \<Longrightarrow> sublist xs zs"
  by (rule sublist_order.order.trans)

lemma sublist_around_char:
  assumes d: "d \<notin> set l" and s: "sublist l (x @ d # y)"
  shows "sublist l x \<or> sublist l y"
proof -
  from s consider (left) "sublist l x" | (right) "sublist l (d # y)"
    | (both) xs1 xs2 where "l = xs1 @ xs2" "suffix xs1 x" "prefix xs2 (d # y)"
    unfolding sublist_append by blast
  then show ?thesis
  proof cases
    case left
    then show ?thesis by simp
  next
    case right
    then consider "prefix l (d # y)" | "sublist l y"
      unfolding sublist_Cons_right by blast
    then show ?thesis
    proof cases
      case 1
      with d show ?thesis by (cases l) auto
    next
      case 2
      then show ?thesis by simp
    qed
  next
    case both
    show ?thesis
    proof (cases xs2)
      case Nil
      with both show ?thesis by auto
    next
      case (Cons e es)
      with both have "e = d" by simp
      with both Cons d show ?thesis by simp
    qed
  qed
qed

lemma join_slash_no_sublist:
  assumes "l \<noteq> []" and "CHR ''/'' \<notin> set l"
  shows "\<forall>x \<in> set xs. \<not> sublist l x \<Longrightarrow> \<not> sublist l (join_slash xs)"
proof (induction xs rule: join_slash.induct)
  case 1
  with assms(1) show ?case by simp
next
  case (2 x)
  then show ?case by simp
next
  case (3 x y ys)
  show ?case
  proof
    assume "sublist l (join_slash (x # y # ys))"
    then have "sublist l (x @ CHR ''/'' # join_slash (y # ys))"
      by simp
    then have "sublist l x \<or> sublist l (join_slash (y # ys))"
      using assms(2) by (intro sublist_around_char)
    with 3 show False by simp
  qed
qed

lemma first_segment_prefix: "split_on d p = h # t \<Longrightarrow> prefix h p"
proof (induction p arbitrary: h t)
  case Nil
  then show ?case by simp
next
  case (Cons c cs)
  show ?case
  proof (cases "c = d")
    case True
    with Cons.prems show ?thesis by simp
  next
    case False
    obtain h' t' where ht: "split_on d cs = h' # t'"
      using split_on_nonempty [of d cs] by (cases "split_on d cs") auto
    with Cons.prems False have "h = c # h'" by simp
    moreover from ht have "prefix h' cs" by (rule Cons.IH)
    ultimately show ?thesis by simp
  qed
qed

lemma segment_sublist: "x \<in> set (split_on d p) \<Longrightarrow> sublist x p"
proof (induction p arbitrary: x)
  case Nil
  then show ?case by simp
next
  case (Cons c cs)
  obtain h t where ht: "split_on d cs = h # t"
    using split_on_nonempty [of d cs] by (cases "split_on d cs") auto
  show ?case
  proof (cases "c = d")
    case True
    with Cons.prems have "x = [] \<or> x \<in> set (split_on d cs)" by simp
    then show ?thesis
    proof
      assume "x = []" then show ?thesis by simp
    next
      assume "x \<in> set (split_on d cs)"
      then have "sublist x cs" by (rule Cons.IH)
      then show ?thesis by (simp add: sublist_Cons_right)
    qed
  next
    case False
    with Cons.prems ht have "x = c # h \<or> x \<in> set t" by simp
    then show ?thesis
    proof
      assume x: "x = c # h"
      from ht have "prefix h cs" by (rule first_segment_prefix)
      with x have "prefix x (c # cs)" by simp
      then show ?thesis by (rule prefix_imp_sublist)
    next
      assume "x \<in> set t"
      with ht have "x \<in> set (split_on d cs)" by simp
      then have "sublist x cs" by (rule Cons.IH)
      then show ?thesis by (simp add: sublist_Cons_right)
    qed
  qed
qed

lemma norm_step_segments:
  "set (norm_step f res seg) \<subseteq> insert seg (insert ''..'' (set res))"
  by (auto simp: norm_step_def dest: in_set_butlastD)

lemma norm_fold_segments:
  "set (foldl (norm_step f) res segs) \<subseteq> set res \<union> set segs \<union> {''..''}"
proof (induction segs arbitrary: res)
  case Nil
  then show ?case by auto
next
  case (Cons seg segs)
  have "set (foldl (norm_step f) (norm_step f res seg) segs)
      \<subseteq> set (norm_step f res seg) \<union> set segs \<union> {''..''}"
    by (rule Cons.IH)
  with norm_step_segments [of f res seg] show ?case
    by auto
qed


lemma literal_needs_room: "sublist url_literal x \<Longrightarrow> 17 \<le> length x"
  using sublist_length_le [of url_literal x] by (simp add: length_url_literal)

lemma url_literal_nonempty: "url_literal \<noteq> []"
  by (simp add: url_literal_def)

lemma normalizeString_no_literal:
  assumes "\<not> sublist url_literal p"
  shows "\<not> sublist url_literal (normalizeString p f)"
proof -
  have "\<not> sublist url_literal x" if "x \<in> set (foldl (norm_step f) [] (split_on (CHR ''/'') p))" for x
  proof -
    from that norm_fold_segments [of f "[]" "split_on (CHR ''/'') p"]
    consider "x \<in> set (split_on (CHR ''/'') p)" | "x = ''..''"
      by auto
    then show ?thesis
    proof cases
      case 1
      then have "sublist x p" by (rule segment_sublist)
      with assms show ?thesis using sublist_trans by blast
    next
      case 2
      then show ?thesis using literal_needs_room [of x] by auto
    qed
  qed
  then show ?thesis
    unfolding normalizeString_def
    by (intro join_slash_no_sublist url_literal_nonempty no_slash_in_literal) blast
qed

lemma normalize_no_literal:
  assumes "\<not> sublist url_literal p"
  shows "\<not> sublist url_literal (normalize p)"
proof -
  let ?q = "normalizeString p (hd p \<noteq> CHR ''/'')"
  have q: "\<not> sublist url_literal ?q"
    using assms by (rule normalizeString_no_literal)
  have wrap: "\<not> sublist url_literal (x @ ?q @ y)"
    if "x = [] \<or> x = ''/''" "y = [] \<or> y = ''/''" for x y
  proof
    assume s: "sublist url_literal (x @ ?q @ y)"
    have "sublist url_literal (?q @ y)"
    proof (cases "x = []")
      case True
      with s show ?thesis by simp
    next
      case False
      with that(1) s have "sublist url_literal ([] @ CHR ''/'' # (?q @ y))" by simp
      then have "sublist url_literal [] \<or> sublist url_literal (?q @ y)"
        using no_slash_in_literal by (intro sublist_around_char)
      then show ?thesis by (simp add: url_literal_nonempty)
    qed
    moreover have "\<not> sublist url_literal (?q @ y)"
    proof (cases "y = []")
      case True
      with q show ?thesis by simp
    next
      case False
      with that(2) have y: "y = ''/''" by simp
      show ?thesis
      proof
        assume "sublist url_literal (?q @ y)"
        then have "sublist url_literal ?q \<or> sublist url_literal []"
          unfolding y using no_slash_in_literal by (intro sublist_around_char) simp_all
        with q show False by (simp add: url_literal_nonempty)
      qed
    qed
    ultimately show False by simp
  qed
  have short: "\<not> sublist url_literal x" if "length x < 17" for x
    using that literal_needs_room [of x] by auto
  show ?thesis
  proof (cases "p = [] \<or> ?q = []")
    case True
    then have "length (normalize p) < 17"
      by (auto simp: normalize_def Let_def)
    then show ?thesis by (rule short)
  next
    case False
    then have "normalize p = (if hd p = CHR ''/'' then ''/'' else []) @ ?q
        @ (if last p = CHR ''/'' then ''/'' else [])"
      by (simp add: normalize_def Let_def)
    then show ?thesis
      using wrap by simp
  qed
qed

lemma path_join_no_literal:
  assumes "\<forall>x \<in> set args. \<not> sublist url_literal x"
  shows "\<not> sublist url_literal (path_join args)"
proof (cases "filter (\<lambda>a. a \<noteq> []) args")
  case Nil
  then show ?thesis
    using literal_needs_room [of "''.''"] by (auto simp: path_join_def)
next
  case (Cons x xs)
  from assms have "\<forall>y \<in> set (filter (\<lambda>a. a \<noteq> []) args). \<not> sublist url_literal y"
    by simp
  then have "\<not> sublist url_literal (join_slash (filter (\<lambda>a. a \<noteq> []) args))"
    by (intro join_slash_no_sublist url_literal_nonempty no_slash_in_literal)
  then have "\<not> sublist url_literal (normalize (join_slash (filter (\<lambda>a. a \<noteq> []) args)))"
    by (rule normalize_no_literal)
  with Cons show ?thesis
    by (simp add: path_join_def)
qed

lemma captured_groups_match:
  assumes "regex_exec s = Some (g, rest)"
  shows "captured_groups s = g # captured_groups rest"
proof (cases s)
  case Nil
  with assms show ?thesis by (simp add: regex_exec_Nil)
next
  case (Cons c cs)
  with assms show ?thesis by simp
qed

section \<open>Facts about the build hooks\<close>

lemma existsSync_console [simp]: "existsSync (w\<lparr>console := x\<rparr>) p = existsSync w p"
  by (simp add: existsSync_def)

lemma copy_missing: "\<not> existsSync w src \<Longrightarrow> copy w src dest = None"
  by (simp add: copy_def Let_def)

lemma prepareBuild_missing:
  assumes "\<not> existsSync w (path_join [cratePath, pkg])"
  shows "prepareBuild rr b a cratePath False w
    = Inl (PluginError ''copy crates failed'',
           w\<lparr>console := console w @ [missing_message (path_join [cratePath, pkg]) cratePath False]\<rparr>)"
  using assms by (simp add: prepareBuild_def Let_def copy_missing)

lemma prepare_each_append:
  "prepare_each rr b a nm (xs @ ys) w
     = (case prepare_each rr b a nm xs w of Inl e \<Rightarrow> Inl e | Inr w' \<Rightarrow> prepare_each rr b a nm ys w')"
  by (induction xs arbitrary: w) (auto split: sum.splits)

lemma join_a_pkg: "path_join [''./a'', pkg] = ''a/pkg''"
  by (simp add: path_join_def pkg_def normalize_def normalizeString_def norm_step_def)
lemma resolve_a_pkg: "resolve ''/proj'' ''a/pkg'' = ''/proj/a/pkg''"
  by (simp add: resolve_def normalizeString_def norm_step_def)
lemma a_pkg_missing: "\<not> existsSync demo_world (path_join [''./a'', pkg])"
  by (simp add: join_a_pkg existsSync_def demo_world_def resolve_a_pkg)

lemma join_my_crate_pkg: "path_join [''./my-crate'', pkg] = ''my-crate/pkg''"
  by (simp add: path_join_def pkg_def normalize_def normalizeString_def norm_step_def)
lemma join_node_modules: "path_join [''node_modules'', basename ''./my-crate''] = ''node_modules/my-crate''"
  by (simp add: basename_def path_join_def pkg_def normalize_def normalizeString_def norm_step_def)
lemma join_loader_path: "path_join [''./node_modules'', basename ''./my-crate'', replace_hyphens (basename ''./my-crate'') @ ''.js''] = ''node_modules/my-crate/my_crate.js''"
  by (simp add: basename_def path_join_def pkg_def normalize_def normalizeString_def norm_step_def)
lemma resolve_my_crate: "resolve ''/proj'' ''my-crate/pkg'' = ''/proj/my-crate/pkg''"
   "resolve ''/proj'' ''node_modules/my-crate'' = ''/proj/node_modules/my-crate''"
   "resolve ''/proj'' ''node_modules/my-crate/my_crate.js'' = ''/proj/node_modules/my-crate/my_crate.js''"
   "resolve ''/proj'' ''/proj/node_modules/my-crate/my_crate.js'' = ''/proj/node_modules/my-crate/my_crate.js''"
  by (simp_all add: resolve_def normalizeString_def norm_step_def)

lemma rewrite_static: "replace_URL ''/'' ''static'' demo_loader = ''input = '' @ [CHR 0x22] @ ''/static/my_crate_bg.wasm'' @ [CHR 0x22]"
proof -
  have "regex_exec (url_literal @ ''my_crate_bg.wasm'' @ CHR 0x27 # '', import.meta.url)'' @ CHR '';'' # [])
      = Some (''my_crate_bg.wasm'', [])"
    by (rule regex_exec_match) (simp_all add: line_terminator_def first_line_def)
  then have "replace_URL ''/'' ''static'' (url_literal @ ''my_crate_bg.wasm'' @ CHR 0x27 # '', import.meta.url)'' @ CHR '';'' # [])
      = replacement ''/'' ''static'' ''my_crate_bg.wasm'' @ replace_URL ''/'' ''static'' []"
    by (rule replace_URL_match)
  moreover have "path_join [''/'', ''static'', ''my_crate_bg.wasm''] = ''/static/my_crate_bg.wasm''"
    by (simp add: path_join_def normalize_def normalizeString_def norm_step_def)
  ultimately show ?thesis
    by (simp add: replacement_def demo_loader_def url_literal_def)
qed

lemma buildEnd_emits:
  "buildEnd m w = Inr emitted \<Longrightarrow>
   map fileName emitted = map (\<lambda>e. ''assets/'' @ fst e) m
   \<and> map (\<lambda>x. Inr (source x)) emitted = map (\<lambda>e. readFileSync w (path (snd e))) m"
proof (induction m arbitrary: emitted)
  case Nil
  then show ?case by simp
next
  case (Cons e m)
  obtain name crate where e: "e = (name, crate)" by (cases e)
  from Cons.prems e obtain bytes rest where
    b: "readFileSync w (path crate) = Inr bytes" and r: "buildEnd m w = Inr rest"
    and em: "emitted = \<lparr>fileName = ''assets/'' @ name, source = bytes\<rparr> # rest"
    by (auto split: sum.splits)
  from Cons.IH [OF r] b e em show ?case by simp
qed

lemma prepare_my_crate:
  "case prepareBuild rr b a ''./my-crate'' False demo_world of Inl _ \<Rightarrow> False
   | Inr w \<Rightarrow> cwd w = ''/proj'' \<and> console w = []
       \<and> files w ''/proj/node_modules/my-crate/my_crate.js'' = Some (replace_URL b a demo_loader)
       \<and> files w ''/proj/my-crate/pkg/my_crate_bg.wasm'' = Some ''wasm-bytes''
       \<and> files w ''/proj/a/pkg'' = None \<and> \<not> dirs w ''/proj/a/pkg''"
  by (simp add: prepareBuild_def Let_def join_my_crate_pkg join_node_modules join_loader_path resolve_my_crate existsSync_def copy_def demo_world_def
      readFileSync_def writeFileSync_def)

lemma rewrite_assets: "replace_URL ''/'' ''assets'' demo_loader = ''input = '' @ [CHR 0x22] @ ''/assets/my_crate_bg.wasm'' @ [CHR 0x22]"
proof -
  have "regex_exec (url_literal @ ''my_crate_bg.wasm'' @ CHR 0x27 # '', import.meta.url)'' @ CHR '';'' # [])
      = Some (''my_crate_bg.wasm'', [])"
    by (rule regex_exec_match) (simp_all add: line_terminator_def first_line_def)
  then have "replace_URL ''/'' ''assets'' (url_literal @ ''my_crate_bg.wasm'' @ CHR 0x27 # '', import.meta.url)'' @ CHR '';'' # [])
      = replacement ''/'' ''assets'' ''my_crate_bg.wasm'' @ replace_URL ''/'' ''assets'' []"
    by (rule replace_URL_match)
  moreover have "path_join [''/'', ''assets'', ''my_crate_bg.wasm''] = ''/assets/my_crate_bg.wasm''"
    by (simp add: path_join_def normalize_def normalizeString_def norm_step_def)
  ultimately show ?thesis
    by (simp add: replacement_def demo_loader_def url_literal_def)
qed

section \<open>Claims\<close>

text \<open>
  C1. For every source identifier \<open>s\<close>, the derived binary file name is the last path segment
  of \<open>s\<close> with every hyphen replaced by an underscore, followed by \<open>_bg.wasm\<close>; \<open>../my-crate\<close>
  gives \<open>my_crate_bg.wasm\<close>. \<open>wasmFilename\<close> is a function of \<open>s\<close> alone and has no failing
  branch.
\<close>

theorem wasmFilename_derivation:
  "wasmFilename s = derivedFilename_spec s
   \<and> wasmFilename ''../my-crate'' = ''my_crate_bg.wasm''"
proof
  show "wasmFilename s = derivedFilename_spec s"
    by (simp add: wasmFilename_def derivedFilename_spec_def replace_hyphens_map
        basename_last_segment)
  show "wasmFilename ''../my-crate'' = ''my_crate_bg.wasm''"
    by (simp add: wasmFilename_def basename_def)
qed

theorem wasmFilename_derivation_witness:
  "wasmFilename ''./crates/my-crate/'' = ''my_crate_bg.wasm''
   \<and> derivedFilename_spec ''./crates/my-crate/'' = ''my_crate_bg.wasm''"
proof -
  have "wasmFilename ''./crates/my-crate/'' = ''my_crate_bg.wasm''"
    by (simp add: wasmFilename_def basename_def)
  then show ?thesis
    using wasmFilename_derivation [of "''./crates/my-crate/''"] by simp
qed

text \<open>
  C10. A request whose URL is not a string: the handler does nothing. The response is as
  it was (no header, no status, no body) and \<open>next()\<close> is not called.
\<close>

theorem middleware_non_string_url:
  "middleware m w None res = (res, NoAction)"
  by (simp add: middleware_def)

theorem middleware_non_string_url_witness:
  "middleware demo_map demo_world None \<lparr>headers = [], statusCode = None, body = None\<rparr>
     = (\<lparr>headers = [], statusCode = None, body = None\<rparr>, NoAction)"
  by (rule middleware_non_string_url)

text \<open>
  C4. A request whose URL's base name is a key of the mapping and ends in \<open>.wasm\<close>, the
  binary being on disk at the recorded path: the handler answers with status 200, the
  headers \<open>Content-Type: application/wasm\<close> and
  \<open>Cache-Control: no-cache, no-store, must-revalidate\<close>, and the bytes of that file.
\<close>

theorem middleware_serves_wasm:
  assumes "map_get m (basename u) = Some entry"
    and "suffix ''.wasm'' (basename u)"
    and "readFileSync w (path entry) = Inr bytes"
  shows "snd (middleware m w (Some u) res) = Answered
    \<and> statusCode (fst (middleware m w (Some u) res)) = Some 200
    \<and> map_get (headers (fst (middleware m w (Some u) res))) ''Content-Type''
          = Some ''application/wasm''
    \<and> map_get (headers (fst (middleware m w (Some u) res))) ''Cache-Control''
          = Some ''no-cache, no-store, must-revalidate''
    \<and> body (fst (middleware m w (Some u) res)) = Some bytes"
  using assms by (simp add: middleware_def Let_def map_get_map_set)

theorem middleware_serves_wasm_witness:
  "middleware demo_map demo_world (Some ''/whatever/my_crate_bg.wasm'')
       \<lparr>headers = [], statusCode = None, body = None\<rparr>
     = (\<lparr>headers = [(''Cache-Control'', ''no-cache, no-store, must-revalidate''),
                     (''Content-Type'', ''application/wasm'')],
         statusCode = Some 200, body = Some ''wasm-bytes''\<rparr>, Answered)"
proof -
  let ?u = "''/whatever/my_crate_bg.wasm''"
  let ?res = "\<lparr>headers = [], statusCode = None, body = None\<rparr>"
  let ?entry = "\<lparr>path = ''my-crate/pkg/my_crate_bg.wasm'', isNodeModule = False\<rparr>"
  have bn: "basename ?u = ''my_crate_bg.wasm''"
    by (simp add: basename_def)
  have h1: "map_get demo_map (basename ?u) = Some ?entry"
    by (simp add: bn map_get_def demo_map_def)
  have h2: "suffix ''.wasm'' (basename ?u)"
    by (simp add: bn suffix_def)
  have "resolve ''/proj'' ''my-crate/pkg/my_crate_bg.wasm'' = ''/proj/my-crate/pkg/my_crate_bg.wasm''"
    by (simp add: resolve_def normalizeString_def norm_step_def)
  then have h3: "readFileSync demo_world (path ?entry) = Inr ''wasm-bytes''"
    by (simp add: readFileSync_def demo_world_def)
  have "headers (fst (middleware demo_map demo_world (Some ?u) ?res))
      = [(''Cache-Control'', ''no-cache, no-store, must-revalidate''),
         (''Content-Type'', ''application/wasm'')]"
    using h1 h2 h3 by (simp add: middleware_def Let_def)
  then show ?thesis
    using middleware_serves_wasm [OF h1 h2 h3, of ?res]
    by (cases "middleware demo_map demo_world (Some ?u) ?res") (auto intro: response.equality)
qed

text \<open>
  C5, as the code has it. A request with a string URL whose base name is not a key of the
  mapping or does not end in \<open>.wasm\<close> is passed to the next handler; before that the
  handler has set the header \<open>Cache-Control: no-cache, no-store, must-revalidate\<close> on the
  response, and nothing else of the response has changed.
\<close>

theorem middleware_passes_on:
  assumes "map_get m (basename u) = None \<or> \<not> suffix ''.wasm'' (basename u)"
  shows "middleware m w (Some u) res
     = (res\<lparr>headers :=
              map_set ''Cache-Control'' ''no-cache, no-store, must-revalidate'' (headers res)\<rparr>,
        CalledNext)"
  using assms by (auto simp: middleware_def Let_def)

theorem middleware_passes_on_witness:
  "map_get demo_map (basename ''/whatever/unknown.wasm'') = None
   \<and> middleware demo_map demo_world (Some ''/whatever/unknown.wasm'')
        \<lparr>headers = [], statusCode = None, body = None\<rparr>
     = (\<lparr>headers = [(''Cache-Control'', ''no-cache, no-store, must-revalidate'')],
         statusCode = None, body = None\<rparr>, CalledNext)"
proof -
  have h: "map_get demo_map (basename ''/whatever/unknown.wasm'') = None"
    by (simp add: map_get_def demo_map_def basename_def)
  show ?thesis
    using h middleware_passes_on [of demo_map "''/whatever/unknown.wasm''" demo_world
        "\<lparr>headers = [], statusCode = None, body = None\<rparr>"]
    by simp
qed

text \<open>
  C5 as stated fails: the request for \<open>/index.html\<close>, which matches nothing, leaves the
  handler with a header on a response that had none.
\<close>

theorem middleware_adds_header_counterexample:
  "map_get [] (basename ''/index.html'') = (None :: CrateType option)
   \<and> snd (middleware [] demo_world (Some ''/index.html'')
         \<lparr>headers = [], statusCode = None, body = None\<rparr>) = CalledNext
   \<and> headers (fst (middleware [] demo_world (Some ''/index.html'')
         \<lparr>headers = [], statusCode = None, body = None\<rparr>))
     = [(''Cache-Control'', ''no-cache, no-store, must-revalidate'')]"
  by (simp add: middleware_def map_get_def Let_def)

text \<open>
  C7, as the code has it. \<open>resolveId\<close> answers the marker followed by the requested id
  exactly when the id itself (not its base name) equals the base name of a declared local
  crate, and \<open>null\<close> otherwise. The installed crates play no part: the id of an installed
  crate gets \<open>null\<close> unless it is also the base name of a local crate.
\<close>

theorem resolveId_exact_basename:
  "resolveId crates ident
     = (if ident \<in> basename ` set crates then Some (prefix_marker @ ident) else None)"
  by (induction crates) auto

theorem resolveId_exact_basename_witness:
  "resolveId [''../crates/my-crate'', ''./other''] ''my-crate''
     = Some ''@vite-plugin-wasm-pack@my-crate''
   \<and> resolveId [''../crates/my-crate'', ''./other''] ''test-npm-crate'' = None"
proof -
  have "basename ` set [''../crates/my-crate'', ''./other''] = {''my-crate'', ''other''}"
    by (simp add: basename_def)
  then show ?thesis
    using resolveId_exact_basename [of "[''../crates/my-crate'', ''./other'']" "''my-crate''"]
      resolveId_exact_basename [of "[''../crates/my-crate'', ''./other'']" "''test-npm-crate''"]
    by (simp add: prefix_marker_def)
qed

text \<open>
  C7 as stated fails twice. The id \<open>@scope/my-crate\<close> has the base name of the local crate
  \<open>./my-crate\<close> and is not intercepted; the id \<open>foo\<close> is a declared installed crate and is
  intercepted, since a local crate \<open>./foo\<close> is declared too.
\<close>

theorem resolveId_counterexample:
  "basename ''@scope/my-crate'' = basename ''./my-crate''
   \<and> resolveId (cratePaths (Many [''./my-crate''])) ''@scope/my-crate'' = None
   \<and> ''foo'' \<in> set (modulePaths (Some (One ''foo'')))
   \<and> resolveId (cratePaths (One ''./foo'')) ''foo'' = Some (prefix_marker @ ''foo'')"
  by (simp add: basename_def cratePaths_def modulePaths_def)





text \<open>
  C8, as the code has it. When the \<open>pkg\<close> directory of a local crate is absent as its
  turn comes, the remediation message naming \<open>wasm-pack build <crate> --target web\<close> is
  printed, the copy of that directory then fails, and \<open>this.error('copy crates failed')\<close>
  aborts the build there: the crates before it have been processed, the crates after it
  and the installed ones are not.
\<close>

theorem buildStart_missing_output_aborts:
  assumes "prepare_each rr config_base config_assetsDir False before w0 = Inr w"
    and "\<not> existsSync w (path_join [cratePath, pkg])"
  shows "buildStart rr config_base config_assetsDir (before @ cratePath # after) mods w0
    = Inl (PluginError ''copy crates failed'',
           w\<lparr>console := console w @
               [''Error: Can't find '' @ path_join [cratePath, pkg] @ '', run wasm-pack build ''
                  @ cratePath @ '' --target web first'']\<rparr>)"
  using assms
  by (simp add: buildStart_def prepare_each_append prepareBuild_missing missing_message_def)

theorem buildStart_missing_output_aborts_witness:
  "case prepare_each no_modules ''/'' ''assets'' False [''./my-crate''] demo_world of
     Inl _ \<Rightarrow> False
   | Inr w \<Rightarrow>
       buildStart no_modules ''/'' ''assets'' [''./my-crate'', ''./a'', ''./b''] [] demo_world
         = Inl (PluginError ''copy crates failed'',
                w\<lparr>console := 
                    [''Error: Can't find a/pkg, run wasm-pack build ./a --target web first'']\<rparr>)"
proof (cases "prepare_each no_modules ''/'' ''assets'' False [''./my-crate''] demo_world")
  case (Inl e)
  with prepare_my_crate [where rr = no_modules and b = "''/''" and a = "''assets''"] show ?thesis
    by (simp split: sum.splits)
next
  case (Inr w)
  with prepare_my_crate [where rr = no_modules and b = "''/''" and a = "''assets''"]
  have w: "cwd w = ''/proj''" "console w = []" "files w ''/proj/a/pkg'' = None" "\<not> dirs w ''/proj/a/pkg''"
    by (simp_all split: sum.splits)
  then have miss: "\<not> existsSync w (path_join [''./a'', pkg])"
    by (simp add: join_a_pkg existsSync_def resolve_a_pkg)
  show ?thesis
    using buildStart_missing_output_aborts [OF Inr miss, of "[''./b'']" "[]"] w(2) Inr
    by (simp add: join_a_pkg)
qed

text \<open>
  C8 as stated fails: with the crates \<open>./a\<close> (never built) and \<open>./my-crate\<close> (built),
  the build is aborted at \<open>./a\<close> and the loader script of \<open>./my-crate\<close> is neither copied
  nor rewritten, though alone \<open>./my-crate\<close> is processed.
\<close>

theorem buildStart_missing_output_counterexample:
  "\<not> existsSync demo_world (path_join [''./a'', pkg])
   \<and> (case buildStart no_modules ''/'' ''assets'' [''./my-crate''] [] demo_world of
        Inl _ \<Rightarrow> False
      | Inr w \<Rightarrow> files w ''/proj/node_modules/my-crate/my_crate.js''
            = Some (''input = '' @ [CHR 0x22] @ ''/assets/my_crate_bg.wasm'' @ [CHR 0x22]))
   \<and> (case buildStart no_modules ''/'' ''assets'' [''./a'', ''./my-crate''] [] demo_world of
        Inl (e, w) \<Rightarrow>
          e = PluginError ''copy crates failed''
          \<and> console w = [''Error: Can't find a/pkg, run wasm-pack build ./a --target web first'']
          \<and> files w ''/proj/node_modules/my-crate/my_crate.js'' = None
          \<and> files w ''/proj/my-crate/pkg/my_crate.js'' = Some demo_loader
      | Inr w \<Rightarrow> False)"
proof (intro conjI)
  show "\<not> existsSync demo_world (path_join [''./a'', pkg])"
    by (rule a_pkg_missing)
  show "case buildStart no_modules ''/'' ''assets'' [''./my-crate''] [] demo_world of
        Inl _ \<Rightarrow> False
      | Inr w \<Rightarrow> files w ''/proj/node_modules/my-crate/my_crate.js''
            = Some (''input = '' @ [CHR 0x22] @ ''/assets/my_crate_bg.wasm'' @ [CHR 0x22])"
    using prepare_my_crate [where rr = no_modules and b = "''/''" and a = "''assets''"]
    by (auto simp: buildStart_def rewrite_assets split: sum.splits)
  show "case buildStart no_modules ''/'' ''assets'' [''./a'', ''./my-crate''] [] demo_world of
        Inl (e, w) \<Rightarrow>
          e = PluginError ''copy crates failed''
          \<and> console w = [''Error: Can't find a/pkg, run wasm-pack build ./a --target web first'']
          \<and> files w ''/proj/node_modules/my-crate/my_crate.js'' = None
          \<and> files w ''/proj/my-crate/pkg/my_crate.js'' = Some demo_loader
      | Inr w \<Rightarrow> False"
    by (simp add: buildStart_def prepareBuild_missing [OF a_pkg_missing] missing_message_def join_a_pkg)
      (simp add: demo_world_def)
qed

text \<open>
  C3 on the code. \<open>buildEnd\<close> emits one asset per entry, named \<open>assets/\<close> followed by the
  key, with the bytes of the recorded file (\<open>buildEnd_emits\<close>). The name does not follow the
  configured assets directory, which the rewrite of the loader script does: with the base
  \<open>/\<close> and the assets directory \<open>static\<close> the loader script asks for
  \<open>/static/my_crate_bg.wasm\<close> and the asset is emitted as \<open>assets/my_crate_bg.wasm\<close>.
\<close>

theorem buildEnd_ignores_assetsDir:
  "wasmMap no_modules [''./my-crate''] [] = Inr demo_map
   \<and> (case buildStart no_modules ''/'' ''static'' [''./my-crate''] [] demo_world of
        Inl _ \<Rightarrow> False
      | Inr w \<Rightarrow>
          files w ''/proj/node_modules/my-crate/my_crate.js''
            = Some (''input = '' @ [CHR 0x22] @ ''/static/my_crate_bg.wasm'' @ [CHR 0x22])
          \<and> buildEnd demo_map w
            = Inr [\<lparr>fileName = ''assets/my_crate_bg.wasm'', source = ''wasm-bytes''\<rparr>])"
proof
  have "wasmFilename ''./my-crate'' = ''my_crate_bg.wasm''"
    by (simp add: wasmFilename_def basename_def)
  moreover have "path_join [''./my-crate'', pkg, ''my_crate_bg.wasm''] = ''my-crate/pkg/my_crate_bg.wasm''"
    by (simp add: path_join_def pkg_def normalize_def normalizeString_def norm_step_def)
  ultimately show "wasmMap no_modules [''./my-crate''] [] = Inr demo_map"
    by (simp add: wasmMap_def add_local_def Let_def demo_map_def)
  have rs: "resolve ''/proj'' ''my-crate/pkg/my_crate_bg.wasm'' = ''/proj/my-crate/pkg/my_crate_bg.wasm''"
    by (simp add: resolve_def normalizeString_def norm_step_def)
  show "case buildStart no_modules ''/'' ''static'' [''./my-crate''] [] demo_world of
        Inl _ \<Rightarrow> False
      | Inr w \<Rightarrow>
          files w ''/proj/node_modules/my-crate/my_crate.js''
            = Some (''input = '' @ [CHR 0x22] @ ''/static/my_crate_bg.wasm'' @ [CHR 0x22])
          \<and> buildEnd demo_map w
            = Inr [\<lparr>fileName = ''assets/my_crate_bg.wasm'', source = ''wasm-bytes''\<rparr>]"
    using prepare_my_crate [where rr = no_modules and b = "''/''" and a = "''static''"]
    by (auto simp: buildStart_def demo_map_def readFileSync_def rs rewrite_static split: sum.splits)
qed

text \<open>
  C6, as the code has it. Rewriting a loader script a second time gives the text of the
  first rewrite exactly when that text has no match of the pattern left (a text the pattern
  matches is always changed by the rewrite). That is so whenever the text
  \<open>input = new URL('\<close> occurs neither in the base path, nor in the assets directory, nor
  in a group the first rewrite captures.
\<close>

theorem replace_URL_twice:
  "(replace_URL config_base config_assetsDir (replace_URL config_base config_assetsDir code)
      = replace_URL config_base config_assetsDir code
    \<longleftrightarrow> \<not> has_match (replace_URL config_base config_assetsDir code))
   \<and> (\<not> sublist url_literal config_base \<and> \<not> sublist url_literal config_assetsDir
        \<and> (\<forall>g \<in> set (captured_groups code). \<not> sublist url_literal g)
      \<longrightarrow> replace_URL config_base config_assetsDir
            (replace_URL config_base config_assetsDir code)
          = replace_URL config_base config_assetsDir code)"
proof (intro conjI impI)
  let ?T = "replace_URL config_base config_assetsDir"
  show "?T (?T code) = ?T code \<longleftrightarrow> \<not> has_match (?T code)"
    using replace_URL_fixed replace_URL_moves by blast
  assume h: "\<not> sublist url_literal config_base \<and> \<not> sublist url_literal config_assetsDir
        \<and> (\<forall>g \<in> set (captured_groups code). \<not> sublist url_literal g)"
  have "\<not> sublist url_literal (path_join [config_base, config_assetsDir, g])"
    if "g \<in> set (captured_groups code)" for g
    using h that by (intro path_join_no_literal) simp
  then have "\<not> has_match (?T code)"
    by (intro rewritten_has_no_match) blast
  then show "?T (?T code) = ?T code"
    by (rule replace_URL_fixed)
qed

theorem replace_URL_twice_witness:
  "\<not> sublist url_literal ''/'' \<and> \<not> sublist url_literal ''assets''
   \<and> captured_groups demo_loader = [''my_crate_bg.wasm'']
   \<and> \<not> sublist url_literal ''my_crate_bg.wasm''
   \<and> \<not> has_match (replace_URL ''/'' ''assets'' demo_loader)
   \<and> replace_URL ''/'' ''assets'' (replace_URL ''/'' ''assets'' demo_loader)
     = replace_URL ''/'' ''assets'' demo_loader"
proof -
  have s: "\<not> sublist url_literal ''/''" "\<not> sublist url_literal ''assets''"
    "\<not> sublist url_literal ''my_crate_bg.wasm''"
    using literal_needs_room [of "''/''"] literal_needs_room [of "''assets''"]
      literal_needs_room [of "''my_crate_bg.wasm''"]
    by auto
  have "regex_exec (url_literal @ ''my_crate_bg.wasm'' @ CHR 0x27 # '', import.meta.url)''
      @ CHR '';'' # []) = Some (''my_crate_bg.wasm'', [])"
    by (rule regex_exec_match) (simp_all add: line_terminator_def first_line_def)
  then have "captured_groups (url_literal @ ''my_crate_bg.wasm'' @ CHR 0x27
      # '', import.meta.url)'' @ CHR '';'' # []) = ''my_crate_bg.wasm'' # captured_groups []"
    by (rule captured_groups_match)
  then have g: "captured_groups demo_loader = [''my_crate_bg.wasm'']"
    by (simp add: demo_loader_def url_literal_def)
  from s g have twice: "replace_URL ''/'' ''assets'' (replace_URL ''/'' ''assets'' demo_loader)
     = replace_URL ''/'' ''assets'' demo_loader"
    using replace_URL_twice [of "''/''" "''assets''" demo_loader] by simp
  then have "\<not> has_match (replace_URL ''/'' ''assets'' demo_loader)"
    using replace_URL_twice [of "''/''" "''assets''" demo_loader] by blast
  with s g twice show ?thesis
    by (intro conjI)
qed

text \<open>
  C6 as stated fails: in \<open>nested_loader\<close> the group captures a text that holds the
  pattern, the first rewrite puts it into the assigned string, and the second rewrite
  changes that string again.
\<close>

theorem replace_URL_twice_counterexample:
  "replace_URL ''/'' ''assets'' nested_loader
     = ''input = '' @ [CHR 0x22] @ ''/assets/'' @ url_literal @ ''a'b;'' @ [CHR 0x22]
   \<and> replace_URL ''/'' ''assets'' (replace_URL ''/'' ''assets'' nested_loader)
     = ''input = '' @ [CHR 0x22] @ ''/assets/input = '' @ [CHR 0x22] @ ''/assets/a''
         @ [CHR 0x22, CHR 0x22]
   \<and> replace_URL ''/'' ''assets'' (replace_URL ''/'' ''assets'' nested_loader)
     \<noteq> replace_URL ''/'' ''assets'' nested_loader"
proof -
  let ?once = "''input = '' @ [CHR 0x22] @ ''/assets/'' @ url_literal @ ''a'b;'' @ [CHR 0x22]"
  let ?twice = "''input = '' @ [CHR 0x22] @ ''/assets/input = '' @ [CHR 0x22] @ ''/assets/a''
         @ [CHR 0x22, CHR 0x22]"
  have once: "replace_URL ''/'' ''assets'' nested_loader = ?once"
    by (rule rewrite_nested_once)
  have twice: "replace_URL ''/'' ''assets'' ?once = ?twice"
    by (rule rewrite_nested_twice)
  have "?twice \<noteq> ?once"
    by (simp add: url_literal_def)
  then show ?thesis
    unfolding once twice by (intro conjI refl)
qed

end
